theory Spec2Isabelle
  imports Main "HOL-Library.Word" "HOL-Library.Signed_Division"
begin

unbundle bit_operations_syntax

section \<open>Data model of cwlogger.go\<close>

text \<open>
  A log event as the AWS SDK's \<open>types.InputLogEvent\<close>: the message and the
  timestamp in Unix milliseconds, an \<open>int64\<close>.
\<close>

record InputLogEvent =
  Message :: string
  Timestamp :: "64 word"

type_synonym batch = "InputLogEvent list"

text \<open>
  Go's \<open>error\<close> values as far as the program tells them apart. The three typed
  exceptions are those the source matches with \<open>errors.As\<close>; every other service
  error is a generic API error with its code and message. \<open>UnableToCreateLogGroup\<close>
  and \<open>UnableToSetRetention\<close> are the two errors \<open>createIfNotExists\<close> builds
  with \<open>fmt.Errorf\<close> and \<open>%w\<close> (the format's arguments are kept, the rendered
  text is not), and the two configuration errors are the ones \<open>New\<close> builds with
  \<open>errors.New\<close>.
\<close>

datatype error =
    InvalidSequenceTokenException "string option"
  | DataAlreadyAcceptedException "string option"
  | ResourceAlreadyExistsException
  | GenericAPIError string string
  | UnableToCreateLogGroup string error
  | UnableToSetRetention error
  | MissingClient
  | MissingLogGroupName

text \<open>
  \<open>errors.As(err, &target)\<close> walks the chain of wrapped errors and stops at the first
  one of the target's type. The result is \<open>None\<close> when there is none, and otherwise
  the \<open>ExpectedSequenceToken\<close> field of the exception found (itself a pointer that
  may be nil).
\<close>

fun as_InvalidSequenceTokenException :: "error \<Rightarrow> string option option" where
  "as_InvalidSequenceTokenException (InvalidSequenceTokenException t) = Some t"
| "as_InvalidSequenceTokenException (UnableToCreateLogGroup g e) = as_InvalidSequenceTokenException e"
| "as_InvalidSequenceTokenException (UnableToSetRetention e) = as_InvalidSequenceTokenException e"
| "as_InvalidSequenceTokenException _ = None"

fun as_DataAlreadyAcceptedException :: "error \<Rightarrow> string option option" where
  "as_DataAlreadyAcceptedException (DataAlreadyAcceptedException t) = Some t"
| "as_DataAlreadyAcceptedException (UnableToCreateLogGroup g e) = as_DataAlreadyAcceptedException e"
| "as_DataAlreadyAcceptedException (UnableToSetRetention e) = as_DataAlreadyAcceptedException e"
| "as_DataAlreadyAcceptedException _ = None"

fun as_ResourceAlreadyExistsException :: "error \<Rightarrow> bool" where
  "as_ResourceAlreadyExistsException ResourceAlreadyExistsException = True"
| "as_ResourceAlreadyExistsException (UnableToCreateLogGroup g e) = as_ResourceAlreadyExistsException e"
| "as_ResourceAlreadyExistsException (UnableToSetRetention e) = as_ResourceAlreadyExistsException e"
| "as_ResourceAlreadyExistsException _ = False"

text \<open>A panic of the Go runtime ends the process; the value says which one it was.\<close>

datatype panic =
    UnknownError error
  | DivideByZero
  | NegativeWaitGroupCounter
  | SendOnClosedChannel

text \<open>A stream of the pool (\<open>type logStream struct\<close>); its \<open>logger\<close> field is the
  back pointer to the one Logger and is not a field here.\<close>

record logStream =
  name :: string
  sequenceToken :: "string option"

record PutLogEventsInput =
  LogGroupName :: string
  LogStreamName :: string
  LogEvents :: batch
  SequenceToken :: "string option"

record PutLogEventsOutput =
  NextSequenceToken :: "string option"

text \<open>The request \<open>logStream.write\<close> builds from the stream and the batch.\<close>

definition write_input :: "string \<Rightarrow> logStream \<Rightarrow> batch \<Rightarrow> PutLogEventsInput" where
  "write_input grp ls b =
     \<lparr>LogGroupName = grp, LogStreamName = name ls, LogEvents = b,
      SequenceToken = sequenceToken ls\<rparr>"

text \<open>
  \<open>logStream.write\<close>. The remote service is outside the program and has a state of
  its own, so its answer to the one \<open>PutLogEvents\<close> call is the argument \<open>resp\<close>
  (\<open>Inl\<close> the error, \<open>Inr\<close> the response). The result is the panic, or the stream
  after the call with the error returned (\<open>None\<close> for nil). The two writes to the
  process's own log (\<open>fmt.Printf\<close>, \<open>logrus.Warnf\<close>) are left out.
\<close>

definition logStream_write ::
  "(error + PutLogEventsOutput) \<Rightarrow> logStream \<Rightarrow> panic + (logStream \<times> error option)" where
  "logStream_write resp ls =
     (case resp of
        Inl err \<Rightarrow>
          (case as_InvalidSequenceTokenException err of
             Some expected \<Rightarrow>
               Inr (if expected \<noteq> None then ls\<lparr>sequenceToken := expected\<rparr> else ls, Some err)
           | None \<Rightarrow>
               (case as_DataAlreadyAcceptedException err of
                  Some expected \<Rightarrow>
                    Inr (if expected \<noteq> None then ls\<lparr>sequenceToken := expected\<rparr> else ls, Some err)
                | None \<Rightarrow> Inl (UnknownError err)))
      | Inr out \<Rightarrow> Inr (ls\<lparr>sequenceToken := NextSequenceToken out\<rparr>, None))"

subsection \<open>Names: \<open>strconv.Itoa\<close>, \<open>hex.EncodeToString\<close>, \<open>randomHex\<close>\<close>

fun digits :: "nat \<Rightarrow> string" where
  "digits n = (if n < 10 then [''0123456789'' ! n] else digits (n div 10) @ [''0123456789'' ! (n mod 10)])"

declare digits.simps [simp del]

definition Itoa :: "int \<Rightarrow> string" where
  "Itoa i = (if i < 0 then CHR ''-'' # digits (nat (- i)) else digits (nat i))"

definition hextable :: string where
  "hextable = ''0123456789abcdef''"

definition EncodeToString :: "8 word list \<Rightarrow> string" where
  "EncodeToString src =
     concat (map (\<lambda>v. [hextable ! unat (drop_bit 4 v), hextable ! unat (v AND 0x0f)]) src)"

text \<open>
  \<open>rand.Read(b)\<close> overwrites \<open>b\<close> with bytes of the system's entropy source, here
  the argument \<open>entropy\<close>; when the source fails early the rest of \<open>b\<close> keeps its
  zeros (the source ignores the error \<open>rand.Read\<close> returns).
\<close>

definition rand_Read :: "8 word list \<Rightarrow> 8 word list \<Rightarrow> 8 word list" where
  "rand_Read entropy b = take (length b) entropy @ drop (length entropy) b"

definition randomHex :: "8 word list \<Rightarrow> nat \<Rightarrow> string" where
  "randomHex entropy n = EncodeToString (rand_Read entropy (replicate n 0))"

subsection \<open>The Logger and its pool of streams\<close>

text \<open>The calls the program makes to the remote service, with their arguments.\<close>

datatype call =
    CreateLogGroup string
  | PutRetentionPolicy string "32 word"
  | CreateLogStream string string
  | PutLogEvents PutLogEventsInput

text \<open>
  \<open>type Config struct\<close>. The client is a pointer that is nil or not; the error hook
  is a function of the error that acts on the caller's own state \<open>'h\<close>; \<open>Retention\<close>
  is a Go \<open>int\<close> (64 bits).
\<close>

record 'h Config =
  cfg_Client :: "unit option"
  cfg_LogGroupName :: string
  cfg_ErrorReporter :: "(error \<Rightarrow> 'h \<Rightarrow> 'h) option"
  cfg_Retention :: "64 word"

record writeError =
  we_batch :: batch
  we_stream :: nat
  we_err :: error

datatype worker_pc = Ranging | SendingDone | Exited

text \<open>
  Every piece of state the Logger's goroutines share, in one record. Pointers are
  resolved: a stream is known by its index in \<open>ls.streams\<close> (streams are only ever
  appended), so \<open>writeError.stream\<close> and the keys of \<open>ls.writers\<close> are indices.

  \<^item> \<open>lg_name\<close> is the string that \<open>lg.name\<close> points to. \<open>New\<close> stores
    \<open>&config.LogGroupName\<close>, a pointer into the caller's \<open>Config\<close>, so the
    string is whatever the caller has last written there; every use reads it anew.
  \<^item> \<open>lg_*\<close> are the fields of \<open>type Logger struct\<close> (its \<open>svc\<close> is the
    handle of the remote service, whose answers are arguments of the operations that
    call it, and is not a field here); \<open>lg_wg\<close> is the counter of
    its WaitGroup; \<open>lg_senders\<close> holds the event of each goroutine \<open>Log\<close> has
    started and that is still blocked on \<open>lg.batcher.input <- ...\<close>;
    \<open>lg_worker\<close> is where \<open>Logger.worker\<close> stands and \<open>lg_close\<close> is the
    number of statements of \<open>Close\<close> that have completed.
  \<^item> \<open>bt_*\<close> is the batcher (see below).
  \<^item> \<open>ls_*\<close> are the fields of \<open>type logStreams struct\<close>: \<open>ls_wg\<close> is the
    counter of its WaitGroup; \<open>ls_writes\<close> and \<open>ls_errors\<close> hold the value of each
    goroutine blocked on a send to the channel of that name; \<open>ls_writers ! k\<close> is
    \<open>None\<close> while the writer goroutine of stream \<open>k\<close> waits on its channel and
    \<open>Some b\<close> while it is inside \<open>stream.write(b)\<close>.
  \<^item> \<open>co_i\<close> is the local \<open>i\<close> of \<open>coordinator\<close> (never negative, so a
    \<open>nat\<close>); \<open>co_sending\<close> is \<open>Some (k, b)\<close> while the coordinator is blocked
    on \<open>ls.writers[stream] <- batch\<close> for the stream of index \<open>k\<close>.
  \<^item> \<open>calls\<close> is the list of calls made to the remote service so far, and \<open>host\<close>
    is the state of the caller that the error hook acts on.
\<close>

record 'h Logger =
  lg_name :: string
  lg_prefix :: string
  lg_retention :: "64 word"
  lg_errorReporter :: "error \<Rightarrow> 'h \<Rightarrow> 'h"
  lg_wg :: int
  lg_senders :: "InputLogEvent list"
  lg_worker :: worker_pc
  lg_close :: nat
  bt_open :: batch
  bt_output :: "batch list"
  bt_flushed :: bool
  ls_streams :: "logStream list"
  ls_writers :: "batch option list"
  ls_writes :: "batch list"
  ls_errors :: "writeError list"
  ls_wg :: int
  co_i :: nat
  co_sending :: "(nat \<times> batch) option"
  calls :: "call list"
  host :: 'h

text \<open>
  \<open>sync.WaitGroup\<close>: \<open>Add(1)\<close> adds one, \<open>Done()\<close> takes one off and panics when
  the counter would go negative, \<open>Wait()\<close> returns once the counter is zero.
\<close>

definition wg_Done :: "int \<Rightarrow> panic + int" where
  "wg_Done n = (if n - 1 < 0 then Inl NegativeWaitGroupCounter else Inr (n - 1))"

subsection \<open>Parts of the repository outside cwlogger.go\<close>

text \<open>
  Modelled from the spec: \<open>noopErrorReporter\<close>, the hook \<open>New\<close> installs when the
  configuration has none. Section 6 calls the default a no-op.
\<close>

definition noopErrorReporter :: "error \<Rightarrow> 'h \<Rightarrow> 'h" where
  "noopErrorReporter err h = h"

text \<open>
  Modelled from the spec: \<open>errCodeThrottlingException\<close>, a constant that
  \<open>logStreams.handle\<close> uses and cwlogger.go does not define. Section 6 names the
  throttling failure \<open>ThrottlingException\<close>.
\<close>

definition errCodeThrottlingException :: string where
  "errCodeThrottlingException = ''ThrottlingException''"

text \<open>
  Modelled from the spec: \<open>isErrorCode\<close>, which \<open>logStreams.handle\<close> calls and
  cwlogger.go does not define. It says whether the service error, looked for along the
  chain of wrapped errors, carries the given error code (section 6 lists the error
  kinds by these codes); the three typed exceptions carry their own names.
\<close>

fun isErrorCode :: "error \<Rightarrow> string \<Rightarrow> bool" where
  "isErrorCode (GenericAPIError c m) code = (c = code)"
| "isErrorCode (InvalidSequenceTokenException t) code = (code = ''InvalidSequenceTokenException'')"
| "isErrorCode (DataAlreadyAcceptedException t) code = (code = ''DataAlreadyAcceptedException'')"
| "isErrorCode ResourceAlreadyExistsException code = (code = ''ResourceAlreadyExistsException'')"
| "isErrorCode (UnableToCreateLogGroup g e) code = isErrorCode e code"
| "isErrorCode (UnableToSetRetention e) code = isErrorCode e code"
| "isErrorCode _ code = False"

text \<open>
  Modelled from the spec: \<open>shouldRetry\<close>, which \<open>logStreams.handle\<close> calls and
  cwlogger.go does not define. Sections 4.3 and 7 say that Throttled, InvalidToken and
  AlreadyAccepted failures are retried and that every other failure is terminal and
  never retried.
\<close>

definition shouldRetry :: "error \<Rightarrow> bool" where
  "shouldRetry err \<longleftrightarrow>
     isErrorCode err errCodeThrottlingException
     \<or> as_InvalidSequenceTokenException err \<noteq> None
     \<or> as_DataAlreadyAcceptedException err \<noteq> None"

text \<open>
  Modelled from the spec: the batcher (\<open>newBatcher\<close>, its \<open>input\<close> and \<open>output\<close>
  channels and \<open>flush\<close>), which cwlogger.go uses and does not define. Section 4.1: it
  keeps an open batch; an incoming event that would break a limit seals the open batch
  (emits it) and starts a new one holding the event, any other event is appended; flush
  seals and emits the open batch, an empty one left out, and no batch is produced after
  it. The limits are constants the spec does not give, so the verdict of the limit test
  is the argument \<open>seal\<close>. \<open>bt_output\<close> holds the batches emitted and not yet received
  by the worker, in order.
\<close>

definition batcher_emit :: "'h Logger \<Rightarrow> 'h Logger" where
  "batcher_emit lg =
     (if bt_open lg = [] then lg
      else lg\<lparr>bt_output := bt_output lg @ [bt_open lg], bt_open := []\<rparr>)"

text \<open>
  Modelled from the spec: the batcher taking one event from its \<open>input\<close> channel
  (section 4.1, as above), with the verdict \<open>seal\<close> of its limit test.
\<close>

definition batcher_input :: "bool \<Rightarrow> InputLogEvent \<Rightarrow> 'h Logger \<Rightarrow> 'h Logger" where
  "batcher_input seal ev lg =
     (if seal then (batcher_emit lg)\<lparr>bt_open := [ev]\<rparr>
      else lg\<lparr>bt_open := bt_open lg @ [ev]\<rparr>)"

text \<open>
  Modelled from the spec: \<open>batcher.flush\<close> (section 4.1, as above): the open batch
  is sealed and emitted and the batcher produces nothing more.
\<close>

definition batcher_flush :: "'h Logger \<Rightarrow> 'h Logger" where
  "batcher_flush lg = (batcher_emit lg)\<lparr>bt_flushed := True\<rparr>"

subsection \<open>Construction\<close>

text \<open>
  \<open>Logger.createIfNotExists\<close>. The answers of the service to \<open>CreateLogGroup\<close> and,
  if it is called, to \<open>PutRetentionPolicy\<close> are the first two arguments.
\<close>

definition createIfNotExists ::
  "error option \<Rightarrow> error option \<Rightarrow> 'h Logger \<Rightarrow> 'h Logger \<times> error option" where
  "createIfNotExists r_group r_retention lg =
     (let lg1 = lg\<lparr>calls := calls lg @ [CreateLogGroup (lg_name lg)]\<rparr> in
      case r_group of
        Some err \<Rightarrow>
          if as_ResourceAlreadyExistsException err then (lg1, None)
          else (lg1, Some (UnableToCreateLogGroup (lg_name lg) err))
      | None \<Rightarrow>
          if lg_retention lg \<noteq> 0 then
            (let lg2 = lg1\<lparr>calls := calls lg1 @
                         [PutRetentionPolicy (lg_name lg) (ucast (lg_retention lg))]\<rparr> in
             case r_retention of
               Some err \<Rightarrow> (lg2, Some (UnableToSetRetention err))
             | None \<Rightarrow> (lg2, None))
          else (lg1, None))"

text \<open>\<open>logStream.create\<close>, with the service's answer to \<open>CreateLogStream\<close>.\<close>

definition logStream_create ::
  "error option \<Rightarrow> logStream \<Rightarrow> 'h Logger \<Rightarrow> 'h Logger \<times> error option" where
  "logStream_create r_stream ls lg =
     (lg\<lparr>calls := calls lg @ [CreateLogStream (lg_name lg) (name ls)]\<rparr>, r_stream)"

text \<open>\<open>logStreams.new\<close>; the last line starts the stream's writer goroutine, which
  waits on its channel.\<close>

definition logStreams_new :: "error option \<Rightarrow> 'h Logger \<Rightarrow> 'h Logger \<times> error option" where
  "logStreams_new r_stream lg =
     (let stream = \<lparr>name = lg_prefix lg @ ''.'' @ Itoa (int (length (ls_streams lg))),
                    sequenceToken = None\<rparr> in
      case logStream_create r_stream stream lg of
        (lg1, Some err) \<Rightarrow> (lg1, Some err)
      | (lg1, None) \<Rightarrow>
          (lg1\<lparr>ls_streams := ls_streams lg1 @ [stream],
               ls_writers := ls_writers lg1 @ [None]\<rparr>, None))"

text \<open>
  The struct literal of \<open>New\<close> with the pool of \<open>newLogStreams\<close> and the batcher
  of \<open>newBatcher\<close>: no stream yet, nothing in flight, the coordinator at its
  \<open>select\<close> with \<open>i = 0\<close>. \<open>entropy\<close> is what the system's entropy source
  gives and \<open>h\<close> is the caller's state. \<open>lg.name\<close> points to the
  configuration's \<open>LogGroupName\<close>, so at this moment \<open>lg_name\<close> is that field.
\<close>

definition Logger_literal :: "'h Config \<Rightarrow> 8 word list \<Rightarrow> 'h \<Rightarrow> 'h Logger" where
  "Logger_literal config entropy h =
     \<lparr>lg_name = cfg_LogGroupName config,
      lg_prefix = randomHex entropy 32,
      lg_retention = cfg_Retention config,
      lg_errorReporter =
        (case cfg_ErrorReporter config of None \<Rightarrow> noopErrorReporter | Some f \<Rightarrow> f),
      lg_wg = 0, lg_senders = [], lg_worker = Ranging, lg_close = 0,
      bt_open = [], bt_output = [], bt_flushed = False,
      ls_streams = [], ls_writers = [], ls_writes = [], ls_errors = [],
      ls_wg = 0, co_i = 0, co_sending = None,
      calls = [], host = h\<rparr>"

text \<open>
  \<open>New\<close>. Its arguments past the configuration are what the world supplies: the bytes
  of the entropy source, the caller's state, and the service's answers to the three
  calls construction can make. It returns the calls it made together with Go's result
  (\<open>Inl\<close> the error, \<open>Inr\<close> the Logger with its coordinator and worker started).
\<close>

definition New ::
  "'h Config \<Rightarrow> 8 word list \<Rightarrow> 'h \<Rightarrow> error option \<Rightarrow> error option \<Rightarrow> error option
     \<Rightarrow> call list \<times> (error + 'h Logger)" where
  "New config entropy h r_group r_retention r_stream =
     (if cfg_Client config = None then ([], Inl MissingClient)
      else if cfg_LogGroupName config = [] then ([], Inl MissingLogGroupName)
      else
        (case createIfNotExists r_group r_retention (Logger_literal config entropy h) of
           (lg1, Some err) \<Rightarrow> (calls lg1, Inl err)
         | (lg1, None) \<Rightarrow>
             (case logStreams_new r_stream lg1 of
                (lg2, Some err) \<Rightarrow> (calls lg2, Inl err)
              | (lg2, None) \<Rightarrow> (calls lg2, Inr lg2))))"

subsection \<open>Intake\<close>

text \<open>
  Go's \<open>/\<close> on \<open>int64\<close>: the quotient truncated towards zero (\<open>sdiv\<close> on
  \<open>int\<close>), wrapped to 64 bits. The divisor here is a non-zero constant.
\<close>

definition int64_quo :: "64 word \<Rightarrow> 64 word \<Rightarrow> 64 word" where
  "int64_quo a b = word_of_int (sint a sdiv sint b)"

text \<open>
  \<open>Logger.Log\<close>. The argument \<open>t\<close> is the value of \<open>t.UnixNano()\<close>, an
  \<open>int64\<close>, and \<open>int64(time.Millisecond)\<close> is 1000000. The call adds one to the
  WaitGroup and starts a goroutine that holds the event until the batcher takes it.
\<close>

definition Log :: "64 word \<Rightarrow> string \<Rightarrow> 'h Logger \<Rightarrow> 'h Logger" where
  "Log t s lg =
     lg\<lparr>lg_wg := lg_wg lg + 1,
        lg_senders := lg_senders lg @ [\<lparr>Message = s, Timestamp = int64_quo t 1000000\<rparr>]\<rparr>"

subsection \<open>The goroutines, one step at a time\<close>

text \<open>
  What a step of one goroutine does to the shared state: it cannot run yet
  (\<open>Blocked\<close>: a receive with no sender, a \<open>Wait\<close> on a counter that is not zero),
  it panics, which ends the process, or it gives the next state.
\<close>

datatype 'a outcome = Blocked | Panicked panic | is_Next: Next (the_Next: 'a)

definition remove_nth :: "nat \<Rightarrow> 'a list \<Rightarrow> 'a list" where
  "remove_nth n xs = take n xs @ drop (Suc n) xs"

text \<open>
  The goroutine \<open>Log\<close> started: its send on \<open>lg.batcher.input\<close> is taken by the
  batcher, then \<open>lg.wg.Done()\<close>. \<open>n\<close> picks one of the blocked senders. The comment
  on \<open>Close\<close> says that using the Logger after \<open>Close\<close> panics: a send after the
  flush is a send on a closed channel.
\<close>

definition Log_send :: "nat \<Rightarrow> bool \<Rightarrow> 'h Logger \<Rightarrow> 'h Logger outcome" where
  "Log_send n seal lg =
     (if n < length (lg_senders lg) then
        if bt_flushed lg then Panicked SendOnClosedChannel
        else
          (case wg_Done (lg_wg lg) of
             Inl p \<Rightarrow> Panicked p
           | Inr c \<Rightarrow>
               Next ((batcher_input seal (lg_senders lg ! n) lg)
                       \<lparr>lg_senders := remove_nth n (lg_senders lg), lg_wg := c\<rparr>))
      else Blocked)"

text \<open>\<open>logStreams.write\<close>: one more batch in flight, and a goroutine that offers it
  on \<open>ls.writes\<close>.\<close>

definition logStreams_write :: "batch \<Rightarrow> 'h Logger \<Rightarrow> 'h Logger" where
  "logStreams_write b lg = lg\<lparr>ls_wg := ls_wg lg + 1, ls_writes := ls_writes lg @ [b]\<rparr>"

text \<open>
  \<open>Logger.worker\<close>: while it ranges over \<open>lg.batcher.output\<close> it forwards the next
  batch; once the batcher has flushed and the channel is drained the loop ends and the
  worker blocks on \<open>lg.done <- true\<close> until \<open>Close\<close> receives.
\<close>

definition worker :: "'h Logger \<Rightarrow> 'h Logger outcome" where
  "worker lg =
     (case lg_worker lg of
        Ranging \<Rightarrow>
          (case bt_output lg of
             b # rest \<Rightarrow> Next (logStreams_write b (lg\<lparr>bt_output := rest\<rparr>))
           | [] \<Rightarrow> if bt_flushed lg then Next (lg\<lparr>lg_worker := SendingDone\<rparr>) else Blocked)
      | SendingDone \<Rightarrow> Blocked
      | Exited \<Rightarrow> Blocked)"

text \<open>
  \<open>logStreams.writer\<close>, one turn of its loop for the stream of index \<open>k\<close>, from
  after the receive: \<open>stream.write(batch)\<close> with the service's answer \<open>resp\<close>, then
  either a goroutine that offers the \<open>writeError\<close> on \<open>ls.errors\<close>, or
  \<open>ls.wg.Done()\<close>.
\<close>

definition writer :: "nat \<Rightarrow> (error + PutLogEventsOutput) \<Rightarrow> 'h Logger \<Rightarrow> 'h Logger outcome" where
  "writer k resp lg =
     (if k < length (ls_streams lg) \<and> k < length (ls_writers lg) then
        (case ls_writers lg ! k of
           None \<Rightarrow> Blocked
         | Some b \<Rightarrow>
             (let lg1 = lg\<lparr>calls := calls lg @
                           [PutLogEvents (write_input (lg_name lg) (ls_streams lg ! k) b)]\<rparr> in
              case logStream_write resp (ls_streams lg ! k) of
                Inl p \<Rightarrow> Panicked p
              | Inr (stream, Some err) \<Rightarrow>
                  Next (lg1\<lparr>ls_streams := (ls_streams lg)[k := stream],
                            ls_writers := (ls_writers lg)[k := None],
                            ls_errors := ls_errors lg @
                              [\<lparr>we_batch = b, we_stream = k, we_err = err\<rparr>]\<rparr>)
              | Inr (stream, None) \<Rightarrow>
                  (case wg_Done (ls_wg lg) of
                     Inl p \<Rightarrow> Panicked p
                   | Inr c \<Rightarrow>
                       Next (lg1\<lparr>ls_streams := (ls_streams lg)[k := stream],
                                 ls_writers := (ls_writers lg)[k := None],
                                 ls_wg := c\<rparr>))))
      else Blocked)"

text \<open>
  \<open>logStreams.handle\<close>; \<open>r_stream\<close> is the service's answer to \<open>CreateLogStream\<close>
  if \<open>ls.new()\<close> is called, whose result the source drops.
\<close>

definition handle :: "error option \<Rightarrow> writeError \<Rightarrow> 'h Logger \<Rightarrow> panic + 'h Logger" where
  "handle r_stream writeErr lg =
     (let lg1 = (if isErrorCode (we_err writeErr) errCodeThrottlingException
                 then fst (logStreams_new r_stream lg) else lg) in
      if shouldRetry (we_err writeErr) then
        Inr (lg1\<lparr>ls_writes := ls_writes lg1 @ [we_batch writeErr]\<rparr>)
      else
        (case wg_Done (ls_wg lg1) of
           Inl p \<Rightarrow> Inl p
         | Inr c \<Rightarrow>
             Inr (lg1\<lparr>ls_wg := c,
                      host := lg_errorReporter lg1 (we_err writeErr) (host lg1)\<rparr>)))"

text \<open>
  \<open>logStreams.coordinator\<close>, as the three places where its loop can move: the
  \<open>select\<close> receives the batch of the \<open>n\<close>-th goroutine blocked on \<open>ls.writes\<close>,
  advances \<open>i\<close> and starts the send to that stream's writer (\<open>%\<close> by zero panics);
  that send completes once the writer is back at its receive; or the \<open>select\<close>
  receives the \<open>n\<close>-th pending \<open>writeError\<close> and handles it.
\<close>

definition coordinator_writes :: "nat \<Rightarrow> 'h Logger \<Rightarrow> 'h Logger outcome" where
  "coordinator_writes n lg =
     (if co_sending lg = None \<and> n < length (ls_writes lg) then
        if length (ls_streams lg) = 0 then Panicked DivideByZero
        else
          (let i = (co_i lg + 1) mod length (ls_streams lg) in
           Next (lg\<lparr>co_i := i, co_sending := Some (i, ls_writes lg ! n),
                    ls_writes := remove_nth n (ls_writes lg)\<rparr>))
      else Blocked)"

definition coordinator_send :: "'h Logger \<Rightarrow> 'h Logger outcome" where
  "coordinator_send lg =
     (case co_sending lg of
        None \<Rightarrow> Blocked
      | Some (k, b) \<Rightarrow>
          if k < length (ls_writers lg) \<and> ls_writers lg ! k = None then
            Next (lg\<lparr>ls_writers := (ls_writers lg)[k := Some b], co_sending := None\<rparr>)
          else Blocked)"

definition coordinator_errors :: "nat \<Rightarrow> error option \<Rightarrow> 'h Logger \<Rightarrow> 'h Logger outcome" where
  "coordinator_errors n r_stream lg =
     (if co_sending lg = None \<and> n < length (ls_errors lg) then
        (case handle r_stream (ls_errors lg ! n) (lg\<lparr>ls_errors := remove_nth n (ls_errors lg)\<rparr>) of
           Inl p \<Rightarrow> Panicked p
         | Inr lg' \<Rightarrow> Next lg')
      else Blocked)"

text \<open>
  \<open>Logger.Close\<close> is four statements, each of which may block. \<open>lg_close\<close> counts
  the statements that have completed; the receive from \<open>lg.done\<close> completes the
  worker's send, after which the worker returns.
\<close>

datatype close_stmt = Lg_wg_Wait | Batcher_flush | Recv_done | Streams_flush

definition Close :: "close_stmt list" where
  "Close = [Lg_wg_Wait, Batcher_flush, Recv_done, Streams_flush]"

fun close_exec :: "close_stmt \<Rightarrow> 'h Logger \<Rightarrow> 'h Logger outcome" where
  "close_exec Lg_wg_Wait lg = (if lg_wg lg = 0 then Next lg else Blocked)"
| "close_exec Batcher_flush lg = Next (batcher_flush lg)"
| "close_exec Recv_done lg =
     (if lg_worker lg = SendingDone then Next (lg\<lparr>lg_worker := Exited\<rparr>) else Blocked)"
| "close_exec Streams_flush lg = (if ls_wg lg = 0 then Next lg else Blocked)"

definition Close_next :: "'h Logger \<Rightarrow> 'h Logger outcome" where
  "Close_next lg =
     (if lg_close lg < length Close then
        (case close_exec (Close ! lg_close lg) lg of
           Next lg' \<Rightarrow> Next (lg'\<lparr>lg_close := lg_close lg + 1\<rparr>)
         | Blocked \<Rightarrow> Blocked
         | Panicked p \<Rightarrow> Panicked p)
      else Blocked)"

text \<open>
  The events of a run: a caller's \<open>Log\<close>, one step of one goroutine, and a write
  of the caller to the \<open>LogGroupName\<close> field of its \<open>Config\<close>, which
  \<open>lg.name\<close> points to. The service's answers and the scheduler's choices are part
  of the event.
\<close>

datatype event =
    Call_Log "64 word" string
  | Batcher_takes nat bool
  | Close_step
  | Worker_step
  | Coordinator_writes nat
  | Coordinator_send
  | Coordinator_errors nat "error option"
  | Writer_step nat "error + PutLogEventsOutput"
  | Config_LogGroupName_written string

fun step :: "event \<Rightarrow> 'h Logger \<Rightarrow> 'h Logger outcome" where
  "step (Call_Log t s) lg = Next (Log t s lg)"
| "step (Batcher_takes n seal) lg = Log_send n seal lg"
| "step Close_step lg = Close_next lg"
| "step Worker_step lg = worker lg"
| "step (Coordinator_writes n) lg = coordinator_writes n lg"
| "step Coordinator_send lg = coordinator_send lg"
| "step (Coordinator_errors n r) lg = coordinator_errors n r lg"
| "step (Writer_step k resp) lg = writer k resp lg"
| "step (Config_LogGroupName_written g) lg = Next (lg\<lparr>lg_name := g\<rparr>)"

fun run :: "event list \<Rightarrow> 'h Logger \<Rightarrow> 'h Logger outcome" where
  "run [] lg = Next lg"
| "run (e # es) lg =
     (case step e lg of
        Next lg' \<Rightarrow> run es lg'
      | Blocked \<Rightarrow> Blocked
      | Panicked p \<Rightarrow> Panicked p)"

text \<open>The batches the pool holds: offered on \<open>ls.writes\<close>, in the coordinator's hand,
  inside a writer's \<open>stream.write\<close>, or waiting as a \<open>writeError\<close>.\<close>

definition in_flight :: "'h Logger \<Rightarrow> nat" where
  "in_flight lg =
     length (ls_writes lg)
     + (case co_sending lg of None \<Rightarrow> 0 | Some x \<Rightarrow> 1)
     + length (filter (\<lambda>w. w \<noteq> None) (ls_writers lg))
     + length (ls_errors lg)"

text \<open>
  Two counts along a run, read off the source: the steps in which the worker calls
  \<open>lg.streams.write(batch)\<close>, and the steps in which a batch meets its end, which
  is a \<open>stream.write\<close> that returns nil or a \<open>handle\<close> of an error that
  \<open>shouldRetry\<close> refuses.
\<close>

definition hands_over :: "event \<Rightarrow> 'h Logger \<Rightarrow> bool" where
  "hands_over e lg \<longleftrightarrow> e = Worker_step \<and> lg_worker lg = Ranging \<and> bt_output lg \<noteq> []"

definition finishes :: "event \<Rightarrow> 'h Logger \<Rightarrow> bool" where
  "finishes e lg =
     (case e of
        Writer_step k resp \<Rightarrow> (case resp of Inl err \<Rightarrow> False | Inr out \<Rightarrow> True)
      | Coordinator_errors n r \<Rightarrow>
          n < length (ls_errors lg) \<and> \<not> shouldRetry (we_err (ls_errors lg ! n))
      | _ \<Rightarrow> False)"

fun handed :: "event list \<Rightarrow> 'h Logger \<Rightarrow> nat" where
  "handed [] lg = 0"
| "handed (e # es) lg =
     (case step e lg of
        Next lg' \<Rightarrow> (if hands_over e lg then 1 else 0) + handed es lg'
      | Blocked \<Rightarrow> 0
      | Panicked p \<Rightarrow> 0)"

fun finished :: "event list \<Rightarrow> 'h Logger \<Rightarrow> nat" where
  "finished [] lg = 0"
| "finished (e # es) lg =
     (case step e lg of
        Next lg' \<Rightarrow> (if finishes e lg then 1 else 0) + finished es lg'
      | Blocked \<Rightarrow> 0
      | Panicked p \<Rightarrow> 0)"

fun is_PutRetentionPolicy :: "call \<Rightarrow> bool" where
  "is_PutRetentionPolicy (PutRetentionPolicy g d) = True"
| "is_PutRetentionPolicy _ = False"

subsection \<open>A concrete Logger\<close>

text \<open>
  A configuration whose error hook appends the error to the caller's list, a retention
  of seven days, and the Logger that \<open>New\<close> builds from it when the entropy source
  gives nothing and the service accepts every call.
\<close>

definition example_Config :: "error list Config" where
  "example_Config =
     \<lparr>cfg_Client = Some (), cfg_LogGroupName = ''app'',
      cfg_ErrorReporter = Some (\<lambda>err h. h @ [err]), cfg_Retention = 7\<rparr>"

definition example_Logger :: "error list Logger" where
  "example_Logger = projr (snd (New example_Config [] [] None None None))"

text \<open>Forty bytes of entropy, 0 to 39, and the Logger built from them.\<close>

definition example_entropy :: "8 word list" where
  "example_entropy = map of_nat [0..<40]"

definition example_Logger2 :: "error list Logger" where
  "example_Logger2 = projr (snd (New example_Config example_entropy [] None None None))"

definition example_batch :: batch where
  "example_batch = [\<lparr>Message = ''started'', Timestamp = 1\<rparr>]"

subsection \<open>What stays true along a run\<close>

text \<open>The streams are named by the prefix and their index.\<close>

definition stream_names :: "'h Logger \<Rightarrow> bool" where
  "stream_names lg \<longleftrightarrow>
     map name (ls_streams lg) =
       map (\<lambda>k. lg_prefix lg @ ''.'' @ Itoa (int k)) [0..<length (ls_streams lg)]"

text \<open>Each WaitGroup counts what it is meant to count.\<close>

definition counters :: "'h Logger \<Rightarrow> bool" where
  "counters lg \<longleftrightarrow>
     ls_wg lg = int (in_flight lg) \<and> lg_wg lg = int (length (lg_senders lg))"


text \<open>How far \<open>Close\<close> has come bounds what the batcher, the worker and the pool can
  still do.\<close>

definition close_order :: "'h Logger \<Rightarrow> bool" where
  "close_order lg \<longleftrightarrow>
     lg_close lg \<le> 4
     \<and> (bt_flushed lg \<longleftrightarrow> 2 \<le> lg_close lg)
     \<and> (bt_flushed lg \<longrightarrow> bt_open lg = [])
     \<and> (lg_worker lg \<noteq> Ranging \<longrightarrow> bt_flushed lg \<and> bt_output lg = [])
     \<and> (lg_worker lg = Exited \<longleftrightarrow> 3 \<le> lg_close lg)
     \<and> (lg_close lg = 4 \<longrightarrow> ls_wg lg = 0)"

text \<open>
  A run of that Logger: two events are logged and batched together, \<open>Close\<close> starts
  and flushes the batcher, the worker forwards the batch and ends, the only stream
  first gets an invalid-sequence-token error with the expected token \<open>T\<close>, the batch
  is offered again and accepted, and \<open>Close\<close> returns.
\<close>

definition example_run :: "event list" where
  "example_run =
     [Call_Log 1000000 ''started'', Call_Log 2000000 ''ready'',
      Batcher_takes 0 False, Batcher_takes 0 False,
      Close_step, Close_step, Worker_step, Worker_step, Close_step,
      Coordinator_writes 0, Coordinator_send,
      Writer_step 0 (Inl (InvalidSequenceTokenException (Some ''T''))),
      Coordinator_errors 0 None,
      Coordinator_writes 0, Coordinator_send,
      Writer_step 0 (Inr \<lparr>NextSequenceToken = Some ''n1''\<rparr>),
      Close_step]"

section \<open>Properties\<close>

subsection \<open>Names\<close>

lemma digits_not_Nil: "digits n \<noteq> []"
  by (subst digits.simps) simp

lemma digit_char_inj:
  assumes "a < 10" and "b < 10" and eq: "''0123456789'' ! a = ''0123456789'' ! b"
  shows "a = b"
proof -
  have d: "distinct ''0123456789''" by simp
  have "a < length ''0123456789''" "b < length ''0123456789''" using assms by simp_all
  with d eq show "a = b" by (simp only: nth_eq_iff_index_eq)
qed

lemma digits_inj: "digits n = digits m \<Longrightarrow> n = m"
proof (induction n arbitrary: m rule: digits.induct)
  case (1 n)
  show ?case
  proof (cases "n < 10")
    case True
    then have dn: "digits n = [''0123456789'' ! n]" by (subst digits.simps) simp
    show ?thesis
    proof (cases "m < 10")
      case m: True
      then have "digits m = [''0123456789'' ! m]" by (subst digits.simps) simp
      with dn "1.prems" have "''0123456789'' ! n = ''0123456789'' ! m" by simp
      then show ?thesis by (rule digit_char_inj[OF True m])
    next
      case False
      then have "digits m = digits (m div 10) @ [''0123456789'' ! (m mod 10)]"
        by (subst digits.simps) simp
      with dn "1.prems" have "digits (m div 10) = []" by simp
      then show ?thesis using digits_not_Nil by blast
    qed
  next
    case False
    then have dn: "digits n = digits (n div 10) @ [''0123456789'' ! (n mod 10)]"
      by (subst digits.simps) simp
    show ?thesis
    proof (cases "m < 10")
      case True
      then have "digits m = [''0123456789'' ! m]" by (subst digits.simps) simp
      with dn "1.prems" have "digits (n div 10) = []" by simp
      then show ?thesis using digits_not_Nil by blast
    next
      case m: False
      then have "digits m = digits (m div 10) @ [''0123456789'' ! (m mod 10)]"
        by (subst digits.simps) simp
      with dn "1.prems" have a: "digits (n div 10) = digits (m div 10)"
        and b: "''0123456789'' ! (n mod 10) = ''0123456789'' ! (m mod 10)" by simp_all
      from "1.IH"[OF False a] have q: "n div 10 = m div 10" .
      have "n mod 10 = m mod 10" by (rule digit_char_inj[OF _ _ b]) simp_all
      with q show ?thesis by (metis div_mult_mod_eq)
    qed
  qed
qed

lemma Itoa_inj: "Itoa (int a) = Itoa (int b) \<Longrightarrow> a = b"
  by (simp add: Itoa_def digits_inj)

lemma length_EncodeToString: "length (EncodeToString src) = 2 * length src"
  by (induction src) (simp_all add: EncodeToString_def)

lemma length_rand_Read: "length (rand_Read entropy b) = length b"
  by (simp add: rand_Read_def)

lemma length_randomHex: "length (randomHex entropy n) = 2 * n"
  by (simp add: randomHex_def length_EncodeToString length_rand_Read)

lemma nibble_hi: "unat (drop_bit 4 (v :: 8 word)) < 16"
proof -
  have "unat (drop_bit 4 v) = drop_bit 4 (unat v)" by (rule unat_drop_bit_eq)
  also have "\<dots> = unat v div 2 ^ 4" by (rule drop_bit_eq_div)
  finally have "unat (drop_bit 4 v) = unat v div 2 ^ 4" .
  moreover have "unat v < 256" using unsigned_less[of v] by simp
  ultimately show ?thesis by simp
qed

lemma nibble_lo: "unat ((v :: 8 word) AND 0x0f) < 16"
proof -
  have "unat (v AND 0x0f) \<le> unat (0x0f :: 8 word)"
    by (rule word_and_le1 [THEN word_le_nat_alt [THEN iffD1]])
  then show ?thesis by simp
qed

lemma hextable_nth: "k < 16 \<Longrightarrow> hextable ! k \<in> set hextable"
  by (rule nth_mem) (simp add: hextable_def)

lemma set_EncodeToString: "set (EncodeToString src) \<subseteq> set hextable"
  by (induction src) (simp_all add: EncodeToString_def nibble_hi nibble_lo hextable_nth)

lemma set_randomHex: "set (randomHex entropy n) \<subseteq> set hextable"
  by (simp add: randomHex_def set_EncodeToString)

lemma low_nibble_mod: "unat ((v :: 8 word) AND 0x0f) = unat v mod 16"
proof -
  have "(v AND 0x0f) = take_bit 4 v"
    by (simp add: take_bit_eq_mask mask_eq_exp_minus_1)
  then have "unat (v AND 0x0f) = take_bit 4 (unat v)" by (simp add: unsigned_take_bit_eq)
  then show ?thesis by (simp add: take_bit_eq_mod)
qed

lemma high_nibble_div: "unat (drop_bit 4 (v :: 8 word)) = unat v div 16"
proof -
  have "unat (drop_bit 4 v) = drop_bit 4 (unat v)" by (rule unat_drop_bit_eq)
  also have "\<dots> = unat v div 2 ^ 4" by (rule drop_bit_eq_div)
  finally show ?thesis by simp
qed

lemma hextable_inj:
  assumes "a < 16" and "b < 16" and "hextable ! a = hextable ! b"
  shows "a = b"
proof -
  have d: "distinct hextable" by (simp add: hextable_def)
  have "a < length hextable" "b < length hextable" using assms by (simp_all add: hextable_def)
  with d assms(3) show ?thesis by (simp only: nth_eq_iff_index_eq)
qed

lemma byte_of_nibbles:
  fixes v w :: "8 word"
  assumes "hextable ! unat (drop_bit 4 v) = hextable ! unat (drop_bit 4 w)"
    and "hextable ! unat (v AND 0x0f) = hextable ! unat (w AND 0x0f)"
  shows "v = w"
proof -
  have "unat v < 256" "unat w < 256"
    using unsigned_less[of v, where 'a = nat] unsigned_less[of w, where 'a = nat] by simp_all
  then have hv: "unat v div 16 < 16" "unat w div 16 < 16" by simp_all
  from assms(1) have "hextable ! (unat v div 16) = hextable ! (unat w div 16)"
    by (simp only: high_nibble_div)
  from hextable_inj [OF hv this] have d: "unat v div 16 = unat w div 16" .
  from assms(2) have "hextable ! (unat v mod 16) = hextable ! (unat w mod 16)"
    by (simp only: low_nibble_mod)
  then have m: "unat v mod 16 = unat w mod 16"
    by (rule hextable_inj [rotated 2]) simp_all
  from d m have "unat v = unat w" by (metis div_mult_mod_eq)
  then show ?thesis by (simp add: word_unat_eq_iff)
qed

lemma EncodeToString_Cons:
  "EncodeToString (v # src) =
     hextable ! unat (drop_bit 4 v) # hextable ! unat (v AND 0x0f) # EncodeToString src"
  by (simp add: EncodeToString_def)

lemma EncodeToString_Nil: "EncodeToString [] = []"
  by (simp add: EncodeToString_def)

lemma EncodeToString_inj: "EncodeToString xs = EncodeToString ys \<Longrightarrow> xs = ys"
proof (induction xs arbitrary: ys)
  case Nil
  then show ?case by (cases ys) (simp_all add: EncodeToString_Nil EncodeToString_Cons)
next
  case (Cons x xs)
  show ?case
  proof (cases ys)
    case Nil
    with Cons.prems show ?thesis by (simp add: EncodeToString_Nil EncodeToString_Cons)
  next
    case (Cons y ys')
    with Cons.prems have h: "hextable ! unat (drop_bit 4 x) = hextable ! unat (drop_bit 4 y)"
      and l: "hextable ! unat (x AND 0x0f) = hextable ! unat (y AND 0x0f)"
      and r: "EncodeToString xs = EncodeToString ys'"
      by (simp_all add: EncodeToString_Cons)
    from byte_of_nibbles [OF h l] Cons.IH [OF r] Cons show ?thesis by simp
  qed
qed

lemma rand_Read_enough:
  "length b \<le> length entropy \<Longrightarrow> rand_Read entropy b = take (length b) entropy"
  by (simp add: rand_Read_def)

subsection \<open>Classifying errors\<close>

lemma InvalidSequenceToken_not_throttling:
  "as_InvalidSequenceTokenException e \<noteq> None \<Longrightarrow> \<not> isErrorCode e errCodeThrottlingException"
  by (induction e) (simp_all add: errCodeThrottlingException_def)

lemma DataAlreadyAccepted_not_throttling:
  "as_DataAlreadyAcceptedException e \<noteq> None \<Longrightarrow> \<not> isErrorCode e errCodeThrottlingException"
  by (induction e) (simp_all add: errCodeThrottlingException_def)

subsection \<open>Intake\<close>

lemma sint_numeral_64: "sint (1000000 :: 64 word) = 1000000"
  by simp

lemma sint_int64_quo:
  "sint (int64_quo t 1000000) = sgn (sint t) * (\<bar>sint t\<bar> div 1000000)"
proof -
  define k where "k = sint t"
  define q where "q = sgn k * (\<bar>k\<bar> div 1000000)"
  have lo: "- (2 ^ 63) \<le> k" and hi: "k < 2 ^ 63"
    using sint_ge[of t] sint_lt[of t] by (simp_all add: k_def)
  have "- (2 ^ 63) \<le> q \<and> q < 2 ^ 63"
  proof (cases "0 \<le> k")
    case True
    then have "q = k div 1000000 \<or> q = 0" by (auto simp: q_def sgn_if)
    with True lo hi show ?thesis by auto
  next
    case False
    then have "q = - ((- k) div 1000000)" by (simp add: q_def sgn_if)
    with False lo hi show ?thesis by auto
  qed
  then have st: "signed_take_bit 63 q = q" by (simp add: signed_take_bit_int_eq_self)
  have sq: "sint t sdiv 1000000 = q"
    by (simp add: signed_divide_int_def q_def k_def)
  have "sint (int64_quo t 1000000) = sint (word_of_int q :: 64 word)"
    by (simp only: int64_quo_def sint_numeral_64 sq)
  also have "\<dots> = signed_take_bit 63 q" by (simp add: sint_sbintrunc')
  finally show ?thesis using st by (simp add: q_def k_def)
qed

text \<open>
  C10. \<open>Log(t, s)\<close> leaves exactly one more event waiting to enter the batcher; its
  message is \<open>s\<close> and its timestamp, read as a signed number, is \<open>t.UnixNano()\<close>
  divided by one million and truncated towards zero. The call adds one to the Logger's
  WaitGroup, makes no call to the remote service, does not run the error hook, does not
  touch the batcher, and always returns: it is a step that is never blocked and never
  panics, whatever \<open>t\<close> and \<open>s\<close> are.
\<close>

theorem C10_Log_enqueues_one_event:
  "lg_senders (Log t s lg) = lg_senders lg @ [\<lparr>Message = s, Timestamp = int64_quo t 1000000\<rparr>]
   \<and> sint (int64_quo t 1000000) = sgn (sint t) * (\<bar>sint t\<bar> div 1000000)
   \<and> lg_wg (Log t s lg) = lg_wg lg + 1
   \<and> calls (Log t s lg) = calls lg
   \<and> host (Log t s lg) = host lg
   \<and> bt_open (Log t s lg) = bt_open lg \<and> bt_output (Log t s lg) = bt_output lg
   \<and> step (Call_Log t s) lg = Next (Log t s lg)"
  by (simp add: Log_def sint_int64_quo)

theorem C10_Log_example:
  "lg_senders (Log (- 1500000) ''stopping'' example_Logger) =
     [\<lparr>Message = ''stopping'', Timestamp = - 1\<rparr>]
   \<and> calls (Log (- 1500000) ''stopping'' example_Logger) = calls example_Logger"
proof -
  have q: "int64_quo (- 1500000) 1000000 = - 1" by code_simp
  have s: "lg_senders example_Logger = []" by code_simp
  show ?thesis
    using C10_Log_enqueues_one_event [of "- 1500000" "''stopping''" example_Logger]
    by (simp add: q s)
qed

subsection \<open>Construction\<close>

lemma example_Logger_built:
  "snd (New example_Config [] [] None None None) = Inr example_Logger"
proof -
  have "\<not> isl (snd (New example_Config [] [] None None None))" by code_simp
  then show ?thesis by (simp add: example_Logger_def)
qed

text \<open>
  C7, as the code has it. \<open>New\<close> calls \<open>PutRetentionPolicy\<close> exactly when the
  configuration is valid, \<open>CreateLogGroup\<close> has succeeded (the group did not exist
  before) and the configured retention is not zero; then it calls it once, for the
  configured group, with the retention converted to \<open>int32\<close>. In every other
  construction (retention zero, the group already there, group creation failed, client
  or group name missing) it is not called at all.
\<close>

theorem C7_retention_policy_calls:
  "filter is_PutRetentionPolicy (fst (New config entropy h r_group r_retention r_stream)) =
     (if cfg_Client config \<noteq> None \<and> cfg_LogGroupName config \<noteq> [] \<and> r_group = None
         \<and> cfg_Retention config \<noteq> 0
      then [PutRetentionPolicy (cfg_LogGroupName config) (ucast (cfg_Retention config))]
      else [])"
  by (simp add: New_def Logger_literal_def createIfNotExists_def logStreams_new_def
      logStream_create_def Let_def split: option.split)

theorem C7_retention_policy_example:
  "filter is_PutRetentionPolicy (fst (New example_Config [] [] None None None)) =
     [PutRetentionPolicy ''app'' 7]"
  using C7_retention_policy_calls [of example_Config "[]" "[]" None None None]
  by (simp add: example_Config_def)

text \<open>
  The claim as the spec states it fails when the log group is already there: the
  retention is seven days, construction succeeds, and the only calls are
  \<open>CreateLogGroup\<close> and \<open>CreateLogStream\<close>.
\<close>

theorem C7_existing_group_counterexample:
  "cfg_Retention example_Config = 7
   \<and> \<not> isl (snd (New example_Config [] [] (Some ResourceAlreadyExistsException) None None))
   \<and> fst (New example_Config [] [] (Some ResourceAlreadyExistsException) None None) =
       [CreateLogGroup ''app'',
        CreateLogStream ''app''
          ''0000000000000000000000000000000000000000000000000000000000000000.0'']"
  by code_simp

subsection \<open>What \<open>handle\<close> does with a write error\<close>

lemma logStreams_new_None:
  "logStreams_new None lg =
     (lg\<lparr>calls := calls lg @
           [CreateLogStream (lg_name lg)
              (lg_prefix lg @ ''.'' @ Itoa (int (length (ls_streams lg))))],
         ls_streams := ls_streams lg @
           [\<lparr>name = lg_prefix lg @ ''.'' @ Itoa (int (length (ls_streams lg))),
             sequenceToken = None\<rparr>],
         ls_writers := ls_writers lg @ [None]\<rparr>, None)"
  by (simp add: logStreams_new_def logStream_create_def Let_def)

lemma logStreams_new_Some:
  "logStreams_new (Some e) lg =
     (lg\<lparr>calls := calls lg @
           [CreateLogStream (lg_name lg)
              (lg_prefix lg @ ''.'' @ Itoa (int (length (ls_streams lg))))]\<rparr>, Some e)"
  by (simp add: logStreams_new_def logStream_create_def Let_def)

text \<open>
  C8. When \<open>handle\<close> gets a throttling error and the \<open>CreateLogStream\<close> call of
  \<open>ls.new()\<close> fails with any error \<open>e\<close>, the only change besides the recorded call
  is that the batch is offered again on \<open>ls.writes\<close>: the list of streams and their
  writers, the in-flight counter and the pending errors are as before, and the error
  hook has not run (the caller's state is as before). \<open>handle\<close> does not panic.
\<close>

theorem C8_failed_stream_creation_is_dropped:
  assumes "isErrorCode (we_err writeErr) errCodeThrottlingException"
  shows "handle (Some e) writeErr lg =
           Inr (lg\<lparr>calls := calls lg @
                      [CreateLogStream (lg_name lg)
                         (lg_prefix lg @ ''.'' @ Itoa (int (length (ls_streams lg))))],
                   ls_writes := ls_writes lg @ [we_batch writeErr]\<rparr>)"
  using assms
  by (simp add: handle_def shouldRetry_def logStreams_new_Some)

theorem C8_failed_stream_creation_example:
  "handle (Some (GenericAPIError ''LimitExceededException'' ''too many streams''))
     \<lparr>we_batch = example_batch, we_stream = 0,
      we_err = GenericAPIError ''ThrottlingException'' ''Rate exceeded''\<rparr> example_Logger =
   Inr (example_Logger\<lparr>calls := calls example_Logger @
            [CreateLogStream (lg_name example_Logger)
               (lg_prefix example_Logger @ ''.'' @ Itoa (int (length (ls_streams example_Logger))))],
          ls_writes := ls_writes example_Logger @ [example_batch]\<rparr>)"
  using C8_failed_stream_creation_is_dropped
    [of "\<lparr>we_batch = example_batch, we_stream = 0,
          we_err = GenericAPIError ''ThrottlingException'' ''Rate exceeded''\<rparr>"
        "GenericAPIError ''LimitExceededException'' ''too many streams''" example_Logger]
  by (simp add: errCodeThrottlingException_def)

subsection \<open>Runs\<close>

lemma createIfNotExists_frame:
  "fst (createIfNotExists r_group r_retention lg) =
     lg\<lparr>calls := calls (fst (createIfNotExists r_group r_retention lg))\<rparr>"
  by (simp add: createIfNotExists_def Let_def split: option.split)

lemma New_Inr:
  assumes "snd (New config entropy h r_group r_retention r_stream) = Inr lg0"
  shows "\<exists>cs. lg0 = fst (logStreams_new None ((Logger_literal config entropy h)\<lparr>calls := cs\<rparr>))"
proof -
  obtain lg1 eo where c: "createIfNotExists r_group r_retention (Logger_literal config entropy h) = (lg1, eo)"
    by (cases "createIfNotExists r_group r_retention (Logger_literal config entropy h)")
  obtain lg2 eo2 where n: "logStreams_new r_stream lg1 = (lg2, eo2)"
    by (cases "logStreams_new r_stream lg1")
  from assms c n have e: "eo = None" "eo2 = None" "lg0 = lg2"
    by (auto simp: New_def split: if_splits option.splits)
  from n e have r: "r_stream = None"
    by (cases r_stream) (simp_all add: logStreams_new_Some)
  from createIfNotExists_frame [of r_group r_retention "Logger_literal config entropy h"] c
  have "lg1 = (Logger_literal config entropy h)\<lparr>calls := calls lg1\<rparr>" by simp
  with n e r have "lg0 = fst (logStreams_new None ((Logger_literal config entropy h)\<lparr>calls := calls lg1\<rparr>))"
    by simp
  then show ?thesis ..
qed

lemma New_Inr_fields:
  assumes "snd (New config entropy h r_group r_retention r_stream) = Inr lg0"
  shows "lg_prefix lg0 = randomHex entropy 32
    \<and> ls_streams lg0 = [\<lparr>name = lg_prefix lg0 @ ''.'' @ Itoa 0, sequenceToken = None\<rparr>]
    \<and> ls_writers lg0 = [None] \<and> ls_writes lg0 = [] \<and> ls_errors lg0 = []
    \<and> co_sending lg0 = None \<and> ls_wg lg0 = 0 \<and> lg_wg lg0 = 0
    \<and> lg_senders lg0 = [] \<and> lg_close lg0 = 0 \<and> lg_worker lg0 = Ranging
    \<and> \<not> bt_flushed lg0 \<and> bt_open lg0 = [] \<and> bt_output lg0 = []"
proof -
  from New_Inr [OF assms] obtain cs where
    "lg0 = fst (logStreams_new None ((Logger_literal config entropy h)\<lparr>calls := cs\<rparr>))" ..
  then show ?thesis by (simp add: logStreams_new_None Logger_literal_def)
qed

lemma busy_set:
  "k < length ws \<Longrightarrow> ws ! k = None \<Longrightarrow>
     length (filter (\<lambda>w. w \<noteq> None) (ws[k := Some b])) = Suc (length (filter (\<lambda>w. w \<noteq> None) ws))"
proof (induction ws arbitrary: k)
  case Nil
  then show ?case by simp
next
  case (Cons w ws)
  then show ?case by (cases k) simp_all
qed

lemma busy_clear:
  "k < length ws \<Longrightarrow> ws ! k = Some b \<Longrightarrow>
     Suc (length (filter (\<lambda>w. w \<noteq> None) (ws[k := None]))) = length (filter (\<lambda>w. w \<noteq> None) ws)"
proof (induction ws arbitrary: k)
  case Nil
  then show ?case by simp
next
  case (Cons w ws)
  then show ?case by (cases k) simp_all
qed

lemma logStream_write_Inr:
  "logStream_write (Inr out) ls = Inr (ls\<lparr>sequenceToken := NextSequenceToken out\<rparr>, None)"
  by (simp add: logStream_write_def)

lemma logStream_write_Inl:
  "logStream_write (Inl err) ls = Inr (stream, eo) \<Longrightarrow> eo = Some err"
  by (auto simp: logStream_write_def split: option.splits)

lemma logStream_write_name:
  "logStream_write resp ls = Inr (stream, eo) \<Longrightarrow> name stream = name ls"
  by (auto simp: logStream_write_def split: option.splits sum.splits if_splits)

lemma length_remove_nth: "n < length xs \<Longrightarrow> length (remove_nth n xs) = length xs - 1"
  by (simp add: remove_nth_def)

lemma step_ls_wg:
  assumes "step e lg = Next lg'"
  shows "ls_wg lg' = ls_wg lg + (if hands_over e lg then 1 else 0) - (if finishes e lg then 1 else 0)"
proof (cases e)
  case (Config_LogGroupName_written g)
  with assms show ?thesis by (auto simp: hands_over_def finishes_def)
next
  case (Call_Log t s)
  with assms show ?thesis by (auto simp: Log_def hands_over_def finishes_def)
next
  case (Batcher_takes n seal)
  with assms show ?thesis
    by (auto simp: Log_send_def batcher_input_def batcher_emit_def hands_over_def finishes_def
        split: if_splits sum.splits)
next
  case Close_step
  with assms show ?thesis
    by (cases "Close ! lg_close lg")
      (auto simp: Close_next_def batcher_flush_def batcher_emit_def hands_over_def finishes_def
        split: if_splits)
next
  case Worker_step
  with assms show ?thesis
    by (auto simp: worker_def logStreams_write_def hands_over_def finishes_def
        split: worker_pc.splits list.splits if_splits)
next
  case (Coordinator_writes n)
  with assms show ?thesis
    by (auto simp: coordinator_writes_def Let_def hands_over_def finishes_def split: if_splits)
next
  case Coordinator_send
  with assms show ?thesis
    by (auto simp: coordinator_send_def hands_over_def finishes_def
        split: option.splits if_splits)
next
  case (Coordinator_errors n r)
  with assms show ?thesis
    by (cases r)
      (auto simp: coordinator_errors_def handle_def wg_Done_def logStreams_new_None
        logStreams_new_Some Let_def hands_over_def finishes_def split: if_splits sum.splits)
next
  case (Writer_step k resp)
  show ?thesis
  proof (cases resp)
    case (Inl err)
    with assms Writer_step show ?thesis
      by (auto simp: writer_def Let_def hands_over_def finishes_def
          split: if_splits option.splits sum.splits prod.splits dest: logStream_write_Inl)
  next
    case (Inr out)
    with assms Writer_step show ?thesis
      by (auto simp: writer_def wg_Done_def Let_def logStream_write_Inr hands_over_def
          finishes_def split: if_splits option.splits)
  qed
qed

lemma step_in_flight:
  assumes "step e lg = Next lg'"
  shows "in_flight lg' + (if finishes e lg then 1 else 0) =
         in_flight lg + (if hands_over e lg then 1 else 0)"
proof (cases e)
  case (Config_LogGroupName_written g)
  with assms show ?thesis by (auto simp: in_flight_def hands_over_def finishes_def)
next
  case (Call_Log t s)
  with assms show ?thesis by (auto simp: Log_def in_flight_def hands_over_def finishes_def)
next
  case (Batcher_takes n seal)
  with assms show ?thesis
    by (auto simp: Log_send_def batcher_input_def batcher_emit_def in_flight_def hands_over_def
        finishes_def split: if_splits sum.splits)
next
  case Close_step
  with assms show ?thesis
    by (cases "Close ! lg_close lg")
      (auto simp: Close_next_def batcher_flush_def batcher_emit_def in_flight_def hands_over_def
        finishes_def split: if_splits)
next
  case Worker_step
  with assms show ?thesis
    by (auto simp: worker_def logStreams_write_def in_flight_def hands_over_def finishes_def
        split: worker_pc.splits list.splits if_splits)
next
  case (Coordinator_writes n)
  with assms show ?thesis
    by (auto simp: coordinator_writes_def Let_def in_flight_def length_remove_nth hands_over_def
        finishes_def split: if_splits)
next
  case Coordinator_send
  with assms show ?thesis
    by (auto simp: coordinator_send_def in_flight_def busy_set hands_over_def finishes_def
        simp del: not_None_eq split: option.splits if_splits)
next
  case (Coordinator_errors n r)
  with assms show ?thesis
    by (cases r)
      (auto simp: coordinator_errors_def handle_def wg_Done_def logStreams_new_None
        logStreams_new_Some Let_def in_flight_def length_remove_nth hands_over_def finishes_def
        split: if_splits sum.splits)
next
  case (Writer_step k resp)
  show ?thesis
  proof (cases resp)
    case (Inl err)
    with assms Writer_step show ?thesis
      by (auto simp: writer_def Let_def in_flight_def hands_over_def finishes_def
          simp del: not_None_eq split: if_splits option.splits sum.splits prod.splits
          dest: logStream_write_Inl busy_clear)
  next
    case (Inr out)
    with assms Writer_step show ?thesis
      by (auto simp: writer_def wg_Done_def Let_def logStream_write_Inr in_flight_def
          hands_over_def finishes_def simp del: not_None_eq split: if_splits option.splits
          dest: busy_clear)
  qed
qed

lemma step_lg_wg:
  assumes "step e lg = Next lg'" and "lg_wg lg = int (length (lg_senders lg))"
  shows "lg_wg lg' = int (length (lg_senders lg'))"
proof (cases e)
  case (Config_LogGroupName_written g)
  with assms show ?thesis by auto
next
  case (Call_Log t s)
  with assms show ?thesis by (auto simp: Log_def)
next
  case (Batcher_takes n seal)
  with assms show ?thesis
    by (auto simp: Log_send_def batcher_input_def batcher_emit_def wg_Done_def
        length_remove_nth split: if_splits sum.splits)
next
  case Close_step
  with assms show ?thesis
    by (cases "Close ! lg_close lg")
      (auto simp: Close_next_def batcher_flush_def batcher_emit_def split: if_splits)
next
  case Worker_step
  with assms show ?thesis
    by (auto simp: worker_def logStreams_write_def
        split: worker_pc.splits list.splits if_splits)
next
  case (Coordinator_writes n)
  with assms show ?thesis
    by (auto simp: coordinator_writes_def Let_def split: if_splits)
next
  case Coordinator_send
  with assms show ?thesis
    by (auto simp: coordinator_send_def split: option.splits if_splits)
next
  case (Coordinator_errors n r)
  with assms show ?thesis
    by (cases r)
      (auto simp: coordinator_errors_def handle_def wg_Done_def logStreams_new_None
        logStreams_new_Some Let_def split: if_splits sum.splits)
next
  case (Writer_step k resp)
  with assms show ?thesis
    by (auto simp: writer_def wg_Done_def Let_def
        split: if_splits option.splits sum.splits prod.splits)
qed

lemma step_counters:
  assumes "step e lg = Next lg'" and "counters lg"
  shows "counters lg'"
proof -
  from step_ls_wg [OF assms(1)] step_in_flight [OF assms(1)] assms(2)
  have "ls_wg lg' = int (in_flight lg')" by (auto simp: counters_def split: if_splits)
  moreover from step_lg_wg [OF assms(1)] assms(2)
  have "lg_wg lg' = int (length (lg_senders lg'))" by (simp add: counters_def)
  ultimately show ?thesis by (simp add: counters_def)
qed

lemma run_counters: "run evs lg = Next lg' \<Longrightarrow> counters lg \<Longrightarrow> counters lg'"
proof (induction evs arbitrary: lg)
  case Nil
  then show ?case by simp
next
  case (Cons e evs)
  from Cons.prems(1) obtain lg1 where s: "step e lg = Next lg1" and r: "run evs lg1 = Next lg'"
    by (auto split: outcome.splits)
  from step_counters [OF s Cons.prems(2)] Cons.IH [OF r] show ?case by simp
qed

lemma run_ledger:
  "run evs lg = Next lg' \<Longrightarrow> ls_wg lg' = ls_wg lg + int (handed evs lg) - int (finished evs lg)"
proof (induction evs arbitrary: lg)
  case Nil
  then show ?case by simp
next
  case (Cons e evs)
  from Cons.prems obtain lg1 where s: "step e lg = Next lg1" and r: "run evs lg1 = Next lg'"
    by (auto split: outcome.splits)
  from step_ls_wg [OF s] Cons.IH [OF r] s show ?case by simp
qed

lemma New_counters:
  assumes "snd (New config entropy h r_group r_retention r_stream) = Inr lg0"
  shows "counters lg0"
  using New_Inr_fields [OF assms] by (simp add: counters_def in_flight_def)

lemma example_run_Next:
  "run example_run example_Logger = Next (the_Next (run example_run example_Logger))"
proof -
  have "is_Next (run example_run example_Logger)" by code_simp
  then show ?thesis by simp
qed

lemma handle_ls_wg:
  assumes "handle r writeErr lg = Inr lg'"
  shows "ls_wg lg' = (if shouldRetry (we_err writeErr) then ls_wg lg else ls_wg lg - 1)"
  using assms
  by (cases r)
    (auto simp: handle_def wg_Done_def logStreams_new_None logStreams_new_Some Let_def
      split: if_splits)

lemma writer_ls_wg:
  assumes "writer k resp lg = Next lg'"
  shows "ls_wg lg' = (case resp of Inl err \<Rightarrow> ls_wg lg | Inr out \<Rightarrow> ls_wg lg - 1)"
  using step_ls_wg [of "Writer_step k resp" lg lg'] assms
  by (simp add: hands_over_def finishes_def split: sum.splits)

text \<open>
  C6. In every run of a Logger that \<open>New\<close> has built, the in-flight counter of the
  pool equals the number of batches the worker has handed to \<open>logStreams.write\<close>
  minus the number of batches that have met a terminal outcome (a \<open>stream.write\<close>
  that returned nil, or a \<open>handle\<close> of an error that is not retried), and it equals
  the number of batches the pool still holds; so it is zero once as many batches have
  ended as were handed over. Site by site: \<open>logStreams.write\<close> adds exactly one;
  \<open>handle\<close> leaves the counter alone when it resubmits and takes exactly one off when
  it drops; a turn of a writer takes exactly one off on success and none on an error.
\<close>

theorem C6_in_flight_counter:
  assumes "snd (New config entropy h r_group r_retention r_stream) = Inr lg0"
    and "run evs lg0 = Next lg"
  shows "ls_wg lg = int (handed evs lg0) - int (finished evs lg0)
    \<and> ls_wg lg = int (in_flight lg)
    \<and> (handed evs lg0 = finished evs lg0 \<longrightarrow> ls_wg lg = 0)
    \<and> ls_wg (logStreams_write b lg) = ls_wg lg + 1
    \<and> (\<forall>lg'. handle r writeErr lg = Inr lg' \<longrightarrow>
          ls_wg lg' = (if shouldRetry (we_err writeErr) then ls_wg lg else ls_wg lg - 1))
    \<and> (\<forall>lg'. writer k resp lg = Next lg' \<longrightarrow>
          ls_wg lg' = (case resp of Inl err \<Rightarrow> ls_wg lg | Inr out \<Rightarrow> ls_wg lg - 1))"
proof -
  have z: "ls_wg lg0 = 0" using New_Inr_fields [OF assms(1)] by simp
  from run_ledger [OF assms(2)] z
  have l: "ls_wg lg = int (handed evs lg0) - int (finished evs lg0)" by simp
  from run_counters [OF assms(2) New_counters [OF assms(1)]]
  have c: "ls_wg lg = int (in_flight lg)" by (simp add: counters_def)
  from l have e: "handed evs lg0 = finished evs lg0 \<longrightarrow> ls_wg lg = 0" by simp
  have w: "ls_wg (logStreams_write b lg) = ls_wg lg + 1" by (simp add: logStreams_write_def)
  have hd: "\<forall>lg'. handle r writeErr lg = Inr lg' \<longrightarrow>
          ls_wg lg' = (if shouldRetry (we_err writeErr) then ls_wg lg else ls_wg lg - 1)"
    using handle_ls_wg by blast
  have wr: "\<forall>lg'. writer k resp lg = Next lg' \<longrightarrow>
          ls_wg lg' = (case resp of Inl err \<Rightarrow> ls_wg lg | Inr out \<Rightarrow> ls_wg lg - 1)"
    using writer_ls_wg by blast
  from l c e w hd wr show ?thesis by (intro conjI)
qed

theorem C6_in_flight_counter_example:
  "handed example_run example_Logger = 1
   \<and> finished example_run example_Logger = 1
   \<and> ls_wg (the_Next (run example_run example_Logger)) = 0
   \<and> in_flight (the_Next (run example_run example_Logger)) = 0"
proof -
  have h: "handed example_run example_Logger = 1" "finished example_run example_Logger = 1"
    by code_simp+
  note t = C6_in_flight_counter [OF example_Logger_built example_run_Next]
  from t [THEN conjunct1] h
  have a: "ls_wg (the_Next (run example_run example_Logger)) = 0" by simp
  from t [THEN conjunct2, THEN conjunct1] a
  have b: "in_flight (the_Next (run example_run example_Logger)) = 0" by simp
  from h a b show ?thesis by simp
qed

lemma names_update:
  "k < length xs \<Longrightarrow> name s = name (xs ! k) \<Longrightarrow> map name (xs[k := s]) = map name xs"
  by (metis list_update_id map_update nth_map)

lemma step_stream_names:
  assumes "step e lg = Next lg'" and "stream_names lg"
  shows "stream_names lg' \<and> lg_prefix lg' = lg_prefix lg"
proof (cases e)
  case (Config_LogGroupName_written g)
  with assms show ?thesis by (auto simp: stream_names_def)
next
  case (Call_Log t s)
  with assms show ?thesis by (auto simp: Log_def stream_names_def)
next
  case (Batcher_takes n seal)
  with assms show ?thesis
    by (auto simp: Log_send_def batcher_input_def batcher_emit_def stream_names_def
        split: if_splits sum.splits)
next
  case Close_step
  with assms show ?thesis
    by (cases "Close ! lg_close lg")
      (auto simp: Close_next_def batcher_flush_def batcher_emit_def stream_names_def
        split: if_splits)
next
  case Worker_step
  with assms show ?thesis
    by (auto simp: worker_def logStreams_write_def stream_names_def
        split: worker_pc.splits list.splits if_splits)
next
  case (Coordinator_writes n)
  with assms show ?thesis
    by (auto simp: coordinator_writes_def Let_def stream_names_def split: if_splits)
next
  case Coordinator_send
  with assms show ?thesis
    by (auto simp: coordinator_send_def stream_names_def split: option.splits if_splits)
next
  case (Coordinator_errors n r)
  with assms show ?thesis
    by (cases r)
      (auto simp: coordinator_errors_def handle_def wg_Done_def logStreams_new_None
        logStreams_new_Some Let_def stream_names_def split: if_splits sum.splits)
next
  case (Writer_step k resp)
  with assms show ?thesis
    by (auto simp: writer_def wg_Done_def Let_def stream_names_def names_update
        split: if_splits option.splits sum.splits prod.splits dest: logStream_write_name)
qed

lemma run_stream_names:
  "run evs lg = Next lg' \<Longrightarrow> stream_names lg \<Longrightarrow>
     stream_names lg' \<and> lg_prefix lg' = lg_prefix lg"
proof (induction evs arbitrary: lg)
  case Nil
  then show ?case by simp
next
  case (Cons e evs)
  from Cons.prems(1) obtain lg1 where s: "step e lg = Next lg1" and r: "run evs lg1 = Next lg'"
    by (auto split: outcome.splits)
  from step_stream_names [OF s Cons.prems(2)] Cons.IH [OF r] show ?case by simp
qed

lemma stream_names_distinct:
  assumes "stream_names lg"
  shows "distinct (map name (ls_streams lg))"
proof -
  have "inj_on (\<lambda>k. lg_prefix lg @ ''.'' @ Itoa (int k)) (set [0..<length (ls_streams lg)])"
    by (rule inj_onI) (simp add: Itoa_inj)
  then have "distinct (map (\<lambda>k. lg_prefix lg @ ''.'' @ Itoa (int k)) [0..<length (ls_streams lg)])"
    by (simp add: distinct_map)
  with assms show ?thesis by (simp add: stream_names_def)
qed

lemma stream_names_nth:
  assumes "stream_names lg" and "k < length (ls_streams lg)"
  shows "name (ls_streams lg ! k) = lg_prefix lg @ ''.'' @ Itoa (int k)"
proof -
  from assms(2) have "name (ls_streams lg ! k) = map name (ls_streams lg) ! k" by simp
  also from assms have "\<dots> = lg_prefix lg @ ''.'' @ Itoa (int k)"
    by (simp add: stream_names_def)
  finally show ?thesis .
qed

lemma stream_names_iff:
  "stream_names p \<longleftrightarrow>
     (\<forall>k < length (ls_streams p). name (ls_streams p ! k) = lg_prefix p @ ''.'' @ Itoa (int k))"
proof
  assume "stream_names p"
  then show "\<forall>k < length (ls_streams p).
      name (ls_streams p ! k) = lg_prefix p @ ''.'' @ Itoa (int k)"
    using stream_names_nth by blast
next
  assume a: "\<forall>k < length (ls_streams p).
      name (ls_streams p ! k) = lg_prefix p @ ''.'' @ Itoa (int k)"
  have "map name (ls_streams p) =
      map (\<lambda>k. lg_prefix p @ ''.'' @ Itoa (int k)) [0..<length (ls_streams p)]"
    by (rule nth_equalityI) (use a in simp_all)
  then show "stream_names p" by (simp add: stream_names_def)
qed

lemma logStreams_new_names:
  assumes "stream_names p"
  shows "stream_names (fst (logStreams_new None p))"
  using assms by (simp add: logStreams_new_None stream_names_def)

lemma example_Logger2_built:
  "snd (New example_Config example_entropy [] None None None) = Inr example_Logger2"
proof -
  have "\<not> isl (snd (New example_Config example_entropy [] None None None))" by code_simp
  then show ?thesis by (simp add: example_Logger2_def)
qed

lemma example_run_Next2:
  "run example_run example_Logger2 = Next (the_Next (run example_run example_Logger2))"
proof -
  have "is_Next (run example_run example_Logger2)" by code_simp
  then show ?thesis by simp
qed

text \<open>
  C9. In every run of a Logger that \<open>New\<close> has built, the prefix is the hexadecimal
  encoding of the 32 bytes \<open>rand.Read\<close> filled at construction (the first 32 bytes of
  the entropy source when it gives that many): 64 characters, each a lower-case
  hexadecimal digit, and two entropy sources give the same prefix only if they filled
  the same 32 bytes. Every stream of the pool is named by that prefix, a dot, and its
  index in decimal, and the names are pairwise distinct. \<open>strconv.Itoa\<close> gives
  different strings for different counts. And for \<open>logStreams.new\<close> on any pool whose
  streams are named that way: when the stream is created it is appended with the name
  made of the prefix, a dot, and the number of streams that existed; that name is not
  the name of any stream that existed, and the names stay pairwise distinct.
\<close>

theorem C9_stream_names:
  assumes "snd (New config entropy h r_group r_retention r_stream) = Inr lg0"
    and "run evs lg0 = Next lg"
  shows "lg_prefix lg = EncodeToString (rand_Read entropy (replicate 32 0))
    \<and> length (lg_prefix lg) = 64
    \<and> set (lg_prefix lg) \<subseteq> set ''0123456789abcdef''
    \<and> (\<forall>e2. randomHex e2 32 = lg_prefix lg \<longrightarrow>
          rand_Read e2 (replicate 32 0) = rand_Read entropy (replicate 32 0))
    \<and> (32 \<le> length entropy \<longrightarrow> rand_Read entropy (replicate 32 0) = take 32 entropy)
    \<and> (\<forall>k < length (ls_streams lg).
          name (ls_streams lg ! k) = lg_prefix lg @ ''.'' @ Itoa (int k))
    \<and> distinct (map name (ls_streams lg))
    \<and> (\<forall>a b. Itoa (int a) = Itoa (int b) \<longrightarrow> a = b)
    \<and> (\<forall>p :: 'h Logger.
          (\<forall>k < length (ls_streams p).
             name (ls_streams p ! k) = lg_prefix p @ ''.'' @ Itoa (int k)) \<longrightarrow>
          ls_streams (fst (logStreams_new None p)) =
            ls_streams p @
              [\<lparr>name = lg_prefix p @ ''.'' @ Itoa (int (length (ls_streams p))),
                sequenceToken = None\<rparr>]
          \<and> lg_prefix (fst (logStreams_new None p)) = lg_prefix p
          \<and> lg_prefix p @ ''.'' @ Itoa (int (length (ls_streams p)))
               \<notin> set (map name (ls_streams p))
          \<and> distinct (map name (ls_streams (fst (logStreams_new None p)))))"
proof -
  have n0: "stream_names lg0" and p0: "lg_prefix lg0 = randomHex entropy 32"
    using New_Inr_fields [OF assms(1)] by (simp_all add: stream_names_def)
  from run_stream_names [OF assms(2) n0] p0
  have n: "stream_names lg" and p: "lg_prefix lg = randomHex entropy 32" by simp_all
  from p have c1: "lg_prefix lg = EncodeToString (rand_Read entropy (replicate 32 0))"
    by (simp add: randomHex_def)
  from p have c2: "length (lg_prefix lg) = 64" by (simp add: length_randomHex)
  from p have c3: "set (lg_prefix lg) \<subseteq> set ''0123456789abcdef''"
    using set_randomHex [of entropy 32] by (simp add: hextable_def)
  have c4: "\<forall>e2. randomHex e2 32 = lg_prefix lg \<longrightarrow>
          rand_Read e2 (replicate 32 0) = rand_Read entropy (replicate 32 0)"
    using c1 by (auto simp: randomHex_def dest: EncodeToString_inj)
  have c5: "32 \<le> length entropy \<longrightarrow> rand_Read entropy (replicate 32 0) = take 32 entropy"
    by (simp add: rand_Read_enough)
  have c6: "\<forall>k < length (ls_streams lg).
          name (ls_streams lg ! k) = lg_prefix lg @ ''.'' @ Itoa (int k)"
    using stream_names_nth [OF n] by blast
  have c7: "distinct (map name (ls_streams lg))" by (rule stream_names_distinct [OF n])
  have c8: "\<forall>a b. Itoa (int a) = Itoa (int b) \<longrightarrow> a = b" using Itoa_inj by blast
  have c9: "\<forall>p :: 'h Logger.
          (\<forall>k < length (ls_streams p).
             name (ls_streams p ! k) = lg_prefix p @ ''.'' @ Itoa (int k)) \<longrightarrow>
          ls_streams (fst (logStreams_new None p)) =
            ls_streams p @
              [\<lparr>name = lg_prefix p @ ''.'' @ Itoa (int (length (ls_streams p))),
                sequenceToken = None\<rparr>]
          \<and> lg_prefix (fst (logStreams_new None p)) = lg_prefix p
          \<and> lg_prefix p @ ''.'' @ Itoa (int (length (ls_streams p)))
               \<notin> set (map name (ls_streams p))
          \<and> distinct (map name (ls_streams (fst (logStreams_new None p))))"
  proof (intro allI impI)
    fix p :: "'h Logger"
    assume "\<forall>k < length (ls_streams p).
             name (ls_streams p ! k) = lg_prefix p @ ''.'' @ Itoa (int k)"
    then have sp: "stream_names p" by (simp add: stream_names_iff)
    have a: "ls_streams (fst (logStreams_new None p)) =
            ls_streams p @
              [\<lparr>name = lg_prefix p @ ''.'' @ Itoa (int (length (ls_streams p))),
                sequenceToken = None\<rparr>]"
      and b: "lg_prefix (fst (logStreams_new None p)) = lg_prefix p"
      by (simp_all add: logStreams_new_None)
    from stream_names_distinct [OF logStreams_new_names [OF sp]]
    have d: "distinct (map name (ls_streams (fst (logStreams_new None p))))" .
    from d a have e: "lg_prefix p @ ''.'' @ Itoa (int (length (ls_streams p)))
               \<notin> set (map name (ls_streams p))"
      by simp
    from a b e d
    show "ls_streams (fst (logStreams_new None p)) =
            ls_streams p @
              [\<lparr>name = lg_prefix p @ ''.'' @ Itoa (int (length (ls_streams p))),
                sequenceToken = None\<rparr>]
          \<and> lg_prefix (fst (logStreams_new None p)) = lg_prefix p
          \<and> lg_prefix p @ ''.'' @ Itoa (int (length (ls_streams p)))
               \<notin> set (map name (ls_streams p))
          \<and> distinct (map name (ls_streams (fst (logStreams_new None p))))"
      by (intro conjI)
  qed
  from c1 c2 c3 c4 c5 c6 c7 c8 c9 show ?thesis by (intro conjI)
qed

theorem C9_stream_names_example:
  "lg_prefix (the_Next (run example_run example_Logger2)) =
     ''000102030405060708090a0b0c0d0e0f101112131415161718191a1b1c1d1e1f''
   \<and> length (lg_prefix (the_Next (run example_run example_Logger2))) = 64
   \<and> distinct (map name (ls_streams (the_Next (run example_run example_Logger2))))
   \<and> map name (ls_streams (fst (logStreams_new None
        (the_Next (run example_run example_Logger2))))) =
       [''000102030405060708090a0b0c0d0e0f101112131415161718191a1b1c1d1e1f.0'',
        ''000102030405060708090a0b0c0d0e0f101112131415161718191a1b1c1d1e1f.1'']
   \<and> distinct (map name (ls_streams (fst (logStreams_new None
        (the_Next (run example_run example_Logger2))))))"
proof -
  let ?F = "the_Next (run example_run example_Logger2)"
  note t = C9_stream_names [OF example_Logger2_built example_run_Next2]
  from t have c1: "lg_prefix ?F = EncodeToString (rand_Read example_entropy (replicate 32 0))"
    and c2: "length (lg_prefix ?F) = 64"
    and c6: "\<forall>k < length (ls_streams ?F).
          name (ls_streams ?F ! k) = lg_prefix ?F @ ''.'' @ Itoa (int k)"
    and c7: "distinct (map name (ls_streams ?F))"
    and c9: "\<forall>p :: error list Logger.
          (\<forall>k < length (ls_streams p).
             name (ls_streams p ! k) = lg_prefix p @ ''.'' @ Itoa (int k)) \<longrightarrow>
          ls_streams (fst (logStreams_new None p)) =
            ls_streams p @
              [\<lparr>name = lg_prefix p @ ''.'' @ Itoa (int (length (ls_streams p))),
                sequenceToken = None\<rparr>]
          \<and> lg_prefix (fst (logStreams_new None p)) = lg_prefix p
          \<and> lg_prefix p @ ''.'' @ Itoa (int (length (ls_streams p)))
               \<notin> set (map name (ls_streams p))
          \<and> distinct (map name (ls_streams (fst (logStreams_new None p))))"
    by blast+
  have v: "EncodeToString (rand_Read example_entropy (replicate 32 0)) =
     ''000102030405060708090a0b0c0d0e0f101112131415161718191a1b1c1d1e1f''"
    by code_simp
  from c9 c6 have d: "distinct (map name (ls_streams (fst (logStreams_new None ?F))))"
    by blast
  have m: "map name (ls_streams (fst (logStreams_new None ?F))) =
       [''000102030405060708090a0b0c0d0e0f101112131415161718191a1b1c1d1e1f.0'',
        ''000102030405060708090a0b0c0d0e0f101112131415161718191a1b1c1d1e1f.1'']"
    by code_simp
  from c1 v c2 c7 m d show ?thesis by simp
qed

lemma Close_next_cases:
  assumes "Close_next lg = Next lg'"
  shows "lg_close lg < 4
    \<and> (lg_close lg = 0 \<longrightarrow> lg_wg lg = 0 \<and> lg' = lg\<lparr>lg_close := 1\<rparr>)
    \<and> (lg_close lg = 1 \<longrightarrow> lg' = (batcher_flush lg)\<lparr>lg_close := 2\<rparr>)
    \<and> (lg_close lg = 2 \<longrightarrow>
          lg_worker lg = SendingDone \<and> lg' = lg\<lparr>lg_worker := Exited, lg_close := 3\<rparr>)
    \<and> (lg_close lg = 3 \<longrightarrow> ls_wg lg = 0 \<and> lg' = lg\<lparr>lg_close := 4\<rparr>)"
proof -
  from assms have b: "lg_close lg < 4"
    by (simp add: Close_next_def Close_def split: if_splits)
  then consider "lg_close lg = 0" | "lg_close lg = 1" | "lg_close lg = 2" | "lg_close lg = 3"
    by linarith
  then show ?thesis
  proof cases
    case 1
    with assms show ?thesis by (auto simp: Close_next_def Close_def split: if_splits)
  next
    case 2
    with assms show ?thesis by (auto simp: Close_next_def Close_def split: if_splits)
  next
    case 3
    with assms show ?thesis by (auto simp: Close_next_def Close_def split: if_splits)
  next
    case 4
    with assms show ?thesis by (auto simp: Close_next_def Close_def split: if_splits)
  qed
qed

lemma pool_step_frame:
  assumes "step e lg = Next lg'"
    and "e \<noteq> Close_step" and "e \<noteq> Worker_step" and "\<forall>n seal. e \<noteq> Batcher_takes n seal"
  shows "lg_close lg' = lg_close lg \<and> bt_flushed lg' = bt_flushed lg \<and> bt_open lg' = bt_open lg
    \<and> bt_output lg' = bt_output lg \<and> lg_worker lg' = lg_worker lg"
proof (cases e)
  case (Config_LogGroupName_written g)
  with assms show ?thesis by auto
next
  case (Call_Log t s)
  with assms show ?thesis by (auto simp: Log_def)
next
  case (Batcher_takes n seal)
  with assms(4) show ?thesis by blast
next
  case Close_step
  with assms show ?thesis by simp
next
  case Worker_step
  with assms show ?thesis by simp
next
  case (Coordinator_writes n)
  with assms show ?thesis
    by (auto simp: coordinator_writes_def Let_def split: if_splits)
next
  case Coordinator_send
  with assms show ?thesis
    by (auto simp: coordinator_send_def split: option.splits if_splits)
next
  case (Coordinator_errors n r)
  with assms show ?thesis
    by (cases r)
      (auto simp: coordinator_errors_def handle_def wg_Done_def logStreams_new_None
        logStreams_new_Some Let_def split: if_splits sum.splits)
next
  case (Writer_step k resp)
  with assms show ?thesis
    by (auto simp: writer_def wg_Done_def Let_def
        split: if_splits option.splits sum.splits prod.splits)
qed

lemma step_ls_wg_zero:
  assumes "step e lg = Next lg'" and "ls_wg lg = 0" and "\<not> hands_over e lg"
  shows "ls_wg lg' = 0"
proof (cases "finishes e lg")
  case False
  with step_ls_wg [OF assms(1)] assms(2,3) show ?thesis by simp
next
  case True
  show ?thesis
  proof (cases e)
    case (Coordinator_errors n r)
    with assms True show ?thesis
      by (cases r)
        (auto simp: coordinator_errors_def handle_def wg_Done_def finishes_def Let_def
          logStreams_new_None logStreams_new_Some split: if_splits)
  next
    case (Writer_step k resp)
    with assms True show ?thesis
      by (auto simp: writer_def wg_Done_def Let_def finishes_def logStream_write_Inr
          split: if_splits option.splits sum.splits)
  qed (use True in \<open>simp_all add: finishes_def\<close>)
qed

lemma step_close_order:
  assumes "step e lg = Next lg'" and "close_order lg"
  shows "close_order lg'"
proof -
  consider (close) "e = Close_step" | (work) "e = Worker_step"
    | (batch) n seal where "e = Batcher_takes n seal"
    | (pool) "e \<noteq> Close_step" "e \<noteq> Worker_step" "\<forall>n seal. e \<noteq> Batcher_takes n seal"
    by blast
  then show ?thesis
  proof cases
    case close
    with assms have c: "Close_next lg = Next lg'" by simp
    note cs = Close_next_cases [OF c]
    from cs have "lg_close lg < 4" by simp
    then consider "lg_close lg = 0" | "lg_close lg = 1" | "lg_close lg = 2" | "lg_close lg = 3"
      by linarith
    then show ?thesis
    proof cases
      case 1
      with cs assms(2) show ?thesis by (auto simp: close_order_def)
    next
      case 2
      with cs assms(2) show ?thesis
        by (auto simp: close_order_def batcher_flush_def batcher_emit_def)
    next
      case 3
      with cs assms(2) show ?thesis by (auto simp: close_order_def)
    next
      case 4
      with cs assms(2) show ?thesis by (auto simp: close_order_def)
    qed
  next
    case work
    show ?thesis
    proof (cases "lg_worker lg")
      case Ranging
      show ?thesis
      proof (cases "bt_output lg")
        case Nil
        with assms work Ranging show ?thesis
          by (auto simp: worker_def close_order_def split: if_splits)
      next
        case (Cons b rest)
        with assms work Ranging show ?thesis
          by (auto simp: worker_def logStreams_write_def close_order_def)
      qed
    next
      case SendingDone
      with assms work show ?thesis by (simp add: worker_def)
    next
      case Exited
      with assms work show ?thesis by (simp add: worker_def)
    qed
  next
    case batch
    with assms have nf: "\<not> bt_flushed lg" and
      f: "lg_close lg' = lg_close lg" "bt_flushed lg' = bt_flushed lg"
        "lg_worker lg' = lg_worker lg" "ls_wg lg' = ls_wg lg"
      by (auto simp: Log_send_def batcher_input_def batcher_emit_def
          split: if_splits sum.splits)
    with assms(2) show ?thesis by (auto simp: close_order_def)
  next
    case pool
    note f = pool_step_frame [OF assms(1) pool]
    have h: "\<not> hands_over e lg" using pool by (simp add: hands_over_def)
    have z: "ls_wg lg = 0 \<longrightarrow> ls_wg lg' = 0"
      using step_ls_wg_zero [OF assms(1) _ h] by blast
    from f z assms(2) show ?thesis by (auto simp: close_order_def)
  qed
qed

lemma run_close_order: "run evs lg = Next lg' \<Longrightarrow> close_order lg \<Longrightarrow> close_order lg'"
proof (induction evs arbitrary: lg)
  case Nil
  then show ?case by simp
next
  case (Cons e evs)
  from Cons.prems(1) obtain lg1 where s: "step e lg = Next lg1" and r: "run evs lg1 = Next lg'"
    by (auto split: outcome.splits)
  from step_close_order [OF s Cons.prems(2)] Cons.IH [OF r] show ?case by simp
qed

lemma New_close_order:
  assumes "snd (New config entropy h r_group r_retention r_stream) = Inr lg0"
  shows "close_order lg0"
  using New_Inr_fields [OF assms] by (simp add: close_order_def)

text \<open>
  C4. In every run of a Logger that \<open>New\<close> has built, the statements of \<open>Close\<close>
  complete one after the other, and each only once what it waits for has happened:
  the first only when the Logger's WaitGroup is zero, which is when no goroutine of
  \<open>Log\<close> is still waiting to hand its event to the batcher; the second is the
  batcher's flush, after which the batcher is closed with no open batch; the third only
  when the worker has left its loop and waits on \<open>lg.done\<close>, which it does only
  after the flush, with every emitted batch passed to \<open>logStreams.write\<close>; the
  fourth only when the in-flight counter of the pool is zero and the pool holds no
  batch. And whenever \<open>Close\<close> has returned, in that state and in every later one,
  the in-flight counter is zero and no batch is left in the batcher or in the pool.
\<close>

theorem C4_Close_in_order:
  assumes "snd (New config entropy h r_group r_retention r_stream) = Inr lg0"
    and "run evs lg0 = Next lg"
  shows "(\<forall>lg'. step Close_step lg = Next lg' \<longrightarrow>
            lg_close lg < 4
            \<and> (lg_close lg = 0 \<longrightarrow>
                  lg_wg lg = 0 \<and> lg_senders lg = [] \<and> lg' = lg\<lparr>lg_close := 1\<rparr>)
            \<and> (lg_close lg = 1 \<longrightarrow>
                  lg' = (batcher_flush lg)\<lparr>lg_close := 2\<rparr> \<and> bt_flushed lg' \<and> bt_open lg' = [])
            \<and> (lg_close lg = 2 \<longrightarrow>
                  lg_worker lg = SendingDone \<and> bt_flushed lg \<and> bt_open lg = []
                  \<and> bt_output lg = [] \<and> lg' = lg\<lparr>lg_worker := Exited, lg_close := 3\<rparr>)
            \<and> (lg_close lg = 3 \<longrightarrow>
                  ls_wg lg = 0 \<and> in_flight lg = 0 \<and> lg' = lg\<lparr>lg_close := 4\<rparr>))
    \<and> (lg_close lg = 4 \<longrightarrow>
          ls_wg lg = 0 \<and> in_flight lg = 0 \<and> lg_worker lg = Exited
          \<and> bt_flushed lg \<and> bt_open lg = [] \<and> bt_output lg = [])"
proof -
  from run_counters [OF assms(2) New_counters [OF assms(1)]]
  have c: "ls_wg lg = int (in_flight lg)" "lg_wg lg = int (length (lg_senders lg))"
    by (simp_all add: counters_def)
  from run_close_order [OF assms(2) New_close_order [OF assms(1)]]
  have o: "close_order lg" .
  have returned: "lg_close lg = 4 \<longrightarrow>
          ls_wg lg = 0 \<and> in_flight lg = 0 \<and> lg_worker lg = Exited
          \<and> bt_flushed lg \<and> bt_open lg = [] \<and> bt_output lg = []"
    using o c by (auto simp: close_order_def)
  have steps: "\<forall>lg'. step Close_step lg = Next lg' \<longrightarrow>
            lg_close lg < 4
            \<and> (lg_close lg = 0 \<longrightarrow>
                  lg_wg lg = 0 \<and> lg_senders lg = [] \<and> lg' = lg\<lparr>lg_close := 1\<rparr>)
            \<and> (lg_close lg = 1 \<longrightarrow>
                  lg' = (batcher_flush lg)\<lparr>lg_close := 2\<rparr> \<and> bt_flushed lg' \<and> bt_open lg' = [])
            \<and> (lg_close lg = 2 \<longrightarrow>
                  lg_worker lg = SendingDone \<and> bt_flushed lg \<and> bt_open lg = []
                  \<and> bt_output lg = [] \<and> lg' = lg\<lparr>lg_worker := Exited, lg_close := 3\<rparr>)
            \<and> (lg_close lg = 3 \<longrightarrow>
                  ls_wg lg = 0 \<and> in_flight lg = 0 \<and> lg' = lg\<lparr>lg_close := 4\<rparr>)"
  proof (intro allI impI)
    fix lg'
    assume "step Close_step lg = Next lg'"
    then have n: "Close_next lg = Next lg'" by simp
    note cs = Close_next_cases [OF n]
    from cs have b: "lg_close lg < 4" by simp
    from cs c have s0: "lg_close lg = 0 \<longrightarrow>
        lg_wg lg = 0 \<and> lg_senders lg = [] \<and> lg' = lg\<lparr>lg_close := 1\<rparr>"
      by auto
    from cs have s1: "lg_close lg = 1 \<longrightarrow>
        lg' = (batcher_flush lg)\<lparr>lg_close := 2\<rparr> \<and> bt_flushed lg' \<and> bt_open lg' = []"
      by (auto simp: batcher_flush_def batcher_emit_def)
    from cs o have s2: "lg_close lg = 2 \<longrightarrow>
        lg_worker lg = SendingDone \<and> bt_flushed lg \<and> bt_open lg = []
        \<and> bt_output lg = [] \<and> lg' = lg\<lparr>lg_worker := Exited, lg_close := 3\<rparr>"
      by (auto simp: close_order_def)
    from cs c have s3: "lg_close lg = 3 \<longrightarrow>
        ls_wg lg = 0 \<and> in_flight lg = 0 \<and> lg' = lg\<lparr>lg_close := 4\<rparr>"
      by auto
    from b s0 s1 s2 s3
    show "lg_close lg < 4
            \<and> (lg_close lg = 0 \<longrightarrow>
                  lg_wg lg = 0 \<and> lg_senders lg = [] \<and> lg' = lg\<lparr>lg_close := 1\<rparr>)
            \<and> (lg_close lg = 1 \<longrightarrow>
                  lg' = (batcher_flush lg)\<lparr>lg_close := 2\<rparr> \<and> bt_flushed lg' \<and> bt_open lg' = [])
            \<and> (lg_close lg = 2 \<longrightarrow>
                  lg_worker lg = SendingDone \<and> bt_flushed lg \<and> bt_open lg = []
                  \<and> bt_output lg = [] \<and> lg' = lg\<lparr>lg_worker := Exited, lg_close := 3\<rparr>)
            \<and> (lg_close lg = 3 \<longrightarrow>
                  ls_wg lg = 0 \<and> in_flight lg = 0 \<and> lg' = lg\<lparr>lg_close := 4\<rparr>)"
      by (intro conjI)
  qed
  from steps returned show ?thesis by (intro conjI)
qed

theorem C4_Close_in_order_example:
  "lg_close (the_Next (run example_run example_Logger)) = 4
   \<and> ls_wg (the_Next (run example_run example_Logger)) = 0
   \<and> in_flight (the_Next (run example_run example_Logger)) = 0
   \<and> lg_worker (the_Next (run example_run example_Logger)) = Exited
   \<and> bt_flushed (the_Next (run example_run example_Logger))
   \<and> bt_open (the_Next (run example_run example_Logger)) = []
   \<and> bt_output (the_Next (run example_run example_Logger)) = []"
proof -
  have r: "lg_close (the_Next (run example_run example_Logger)) = 4" by code_simp
  from C4_Close_in_order [OF example_Logger_built example_run_Next, THEN conjunct2] r
  show ?thesis by simp
qed

subsection \<open>The one stream of the pool\<close>


lemma logStream_write_adopts:
  assumes "as_InvalidSequenceTokenException err = Some (Some T)
     \<or> as_InvalidSequenceTokenException err = None
        \<and> as_DataAlreadyAcceptedException err = Some (Some T)"
  shows "logStream_write (Inl err) ls = Inr (ls\<lparr>sequenceToken := Some T\<rparr>, Some err)"
  using assms by (auto simp: logStream_write_def)

lemma logStream_write_panics:
  assumes "as_InvalidSequenceTokenException err = None"
    and "as_DataAlreadyAcceptedException err = None"
  shows "logStream_write (Inl err) ls = Inl (UnknownError err)"
  using assms by (simp add: logStream_write_def)

lemma writer_Inl:
  assumes "writer k (Inl err) lg = Next lg1"
  shows "k < length (ls_streams lg)
    \<and> (\<exists>stream. logStream_write (Inl err) (ls_streams lg ! k) = Inr (stream, Some err)
          \<and> ls_streams lg1 = (ls_streams lg)[k := stream])
    \<and> ls_writers lg1 = (ls_writers lg)[k := None]
    \<and> ls_errors lg1 = ls_errors lg @
          [\<lparr>we_batch = the (ls_writers lg ! k), we_stream = k, we_err = err\<rparr>]
    \<and> co_i lg1 = co_i lg \<and> co_sending lg1 = co_sending lg"
  using assms
  by (auto simp: writer_def Let_def
      split: if_splits option.splits sum.splits prod.splits dest: logStream_write_Inl)

lemma writer_Inr:
  assumes "writer k (Inr out) lg = Next lg1"
  shows "k < length (ls_streams lg)
    \<and> ls_streams lg1 = (ls_streams lg)[k := (ls_streams lg ! k)\<lparr>sequenceToken := NextSequenceToken out\<rparr>]
    \<and> ls_writers lg1 = (ls_writers lg)[k := None]
    \<and> ls_errors lg1 = ls_errors lg
    \<and> co_i lg1 = co_i lg \<and> co_sending lg1 = co_sending lg"
  using assms
  by (auto simp: writer_def Let_def wg_Done_def logStream_write_Inr
      split: if_splits option.splits)









lemma is_Next_collapse: "is_Next x \<Longrightarrow> x = Next (the_Next x)"
  by simp


subsection \<open>Errors that \<open>logStream.write\<close> does not know\<close>

lemma run_append:
  "run (xs @ ys) lg =
     (case run xs lg of Next lg' \<Rightarrow> run ys lg' | Blocked \<Rightarrow> Blocked | Panicked p \<Rightarrow> Panicked p)"
  by (induction xs arbitrary: lg) (simp_all split: outcome.splits)

lemma run_append_Next:
  "run xs lg = Next a \<Longrightarrow> run (xs @ ys) lg = Next c \<Longrightarrow> run ys a = Next c"
  by (simp add: run_append)

lemma run_snoc_Next:
  assumes "run xs lg = Next a" and "run (xs @ [e]) lg = Next c"
  shows "step e a = Next c"
proof -
  from run_append_Next [OF assms] have "run [e] a = Next c" .
  then show ?thesis by (cases "step e a") simp_all
qed

lemma writer_panics:
  assumes "as_InvalidSequenceTokenException err = None"
    and "as_DataAlreadyAcceptedException err = None"
    and "run evs lg0 = Next lg"
    and "k < length (ls_streams lg)" and "k < length (ls_writers lg)"
    and "ls_writers lg ! k = Some b"
  shows "run (evs @ [Writer_step k (Inl err)]) lg0 = Panicked (UnknownError err)"
proof -
  from assms(4-6) logStream_write_panics [OF assms(1,2)]
  have "writer k (Inl err) lg = Panicked (UnknownError err)"
    by (simp add: writer_def)
  with assms(3) show ?thesis by (simp add: run_append)
qed

text \<open>
  C1. What the code does with an error of \<open>PutLogEvents\<close> that is neither an
  invalid-sequence-token nor a data-already-accepted error: \<open>logStream.write\<close>
  panics with that error, and so does every run in which the writer of a stream that
  holds a batch gets such an answer. The process ends there: the in-flight counter is
  not touched, the error hook is not run, and the error never comes to \<open>handle\<close>.
\<close>

theorem C1_write_panics_on_other_error:
  "as_InvalidSequenceTokenException err = None \<and> as_DataAlreadyAcceptedException err = None
   \<longrightarrow>
     logStream_write (Inl err) ls = Inl (UnknownError err)
     \<and> (\<forall>evs k b (lg0 :: 'h Logger) lg.
           run evs lg0 = Next lg \<and> k < length (ls_streams lg) \<and> k < length (ls_writers lg)
           \<and> ls_writers lg ! k = Some b \<longrightarrow>
           run (evs @ [Writer_step k (Inl err)]) lg0 = Panicked (UnknownError err))"
  using logStream_write_panics writer_panics by blast

theorem C1_write_panics_example:
  "run (take 11 example_run @
        [Writer_step 0 (Inl (GenericAPIError ''ResourceNotFoundException'' ''no such log group''))])
     example_Logger =
   Panicked (UnknownError (GenericAPIError ''ResourceNotFoundException'' ''no such log group''))"
proof -
  let ?A = "the_Next (run (take 11 example_run) example_Logger)"
  let ?b = "[\<lparr>Message = ''started'', Timestamp = 1\<rparr>, \<lparr>Message = ''ready'', Timestamp = 2\<rparr>]"
  let ?e = "GenericAPIError ''ResourceNotFoundException'' ''no such log group''"
  have rA: "run (take 11 example_run) example_Logger = Next ?A"
    by (rule is_Next_collapse) code_simp
  have k: "0 < length (ls_streams ?A)" "0 < length (ls_writers ?A)"
    "ls_writers ?A ! 0 = Some ?b"
    by code_simp+
  have n: "as_InvalidSequenceTokenException ?e = None"
    "as_DataAlreadyAcceptedException ?e = None" by simp_all
  from C1_write_panics_on_other_error [of ?e] n rA k show ?thesis by blast
qed

text \<open>
  C2. What the code does with a throttled \<open>PutLogEvents\<close>: a throttling error is
  neither of the two sequencing errors, so \<open>logStream.write\<close> panics with it, and so
  does every run in which the writer of a stream that holds a batch gets that answer.
  The process ends there: no stream is added to the pool and the batch is not
  submitted again.
\<close>

theorem C2_write_panics_on_throttling:
  "isErrorCode err errCodeThrottlingException \<longrightarrow>
     logStream_write (Inl err) ls = Inl (UnknownError err)
     \<and> (\<forall>evs k b (lg0 :: 'h Logger) lg.
           run evs lg0 = Next lg \<and> k < length (ls_streams lg) \<and> k < length (ls_writers lg)
           \<and> ls_writers lg ! k = Some b \<longrightarrow>
           run (evs @ [Writer_step k (Inl err)]) lg0 = Panicked (UnknownError err))"
proof
  assume t: "isErrorCode err errCodeThrottlingException"
  have a: "as_InvalidSequenceTokenException err = None"
    using t InvalidSequenceToken_not_throttling by blast
  have b: "as_DataAlreadyAcceptedException err = None"
    using t DataAlreadyAccepted_not_throttling by blast
  from logStream_write_panics [OF a b] writer_panics [OF a b]
  show "logStream_write (Inl err) ls = Inl (UnknownError err)
     \<and> (\<forall>evs k b (lg0 :: 'h Logger) lg.
           run evs lg0 = Next lg \<and> k < length (ls_streams lg) \<and> k < length (ls_writers lg)
           \<and> ls_writers lg ! k = Some b \<longrightarrow>
           run (evs @ [Writer_step k (Inl err)]) lg0 = Panicked (UnknownError err))"
    by blast
qed

theorem C2_write_panics_example:
  "run (take 11 example_run @
        [Writer_step 0 (Inl (GenericAPIError ''ThrottlingException'' ''Rate exceeded''))])
     example_Logger =
   Panicked (UnknownError (GenericAPIError ''ThrottlingException'' ''Rate exceeded''))"
proof -
  let ?A = "the_Next (run (take 11 example_run) example_Logger)"
  let ?b = "[\<lparr>Message = ''started'', Timestamp = 1\<rparr>, \<lparr>Message = ''ready'', Timestamp = 2\<rparr>]"
  let ?e = "GenericAPIError ''ThrottlingException'' ''Rate exceeded''"
  have rA: "run (take 11 example_run) example_Logger = Next ?A"
    by (rule is_Next_collapse) code_simp
  have k: "0 < length (ls_streams ?A)" "0 < length (ls_writers ?A)"
    "ls_writers ?A ! 0 = Some ?b"
    by code_simp+
  have n: "isErrorCode ?e errCodeThrottlingException"
    by (simp add: errCodeThrottlingException_def)
  from C2_write_panics_on_throttling [of ?e] n rA k show ?thesis by blast
qed

subsection \<open>The sequence token\<close>

lemma step_keeps_other_streams:
  assumes "step e lg = Next lg'" and "\<forall>resp. e \<noteq> Writer_step k resp"
    and "k < length (ls_streams lg)"
  shows "k < length (ls_streams lg') \<and> ls_streams lg' ! k = ls_streams lg ! k"
proof (cases e)
  case (Config_LogGroupName_written g)
  with assms show ?thesis by auto
next
  case (Call_Log t s)
  with assms show ?thesis by (auto simp: Log_def)
next
  case (Batcher_takes n seal)
  with assms show ?thesis
    by (auto simp: Log_send_def batcher_input_def batcher_emit_def split: if_splits sum.splits)
next
  case Close_step
  with assms show ?thesis
    by (cases "Close ! lg_close lg")
      (auto simp: Close_next_def batcher_flush_def batcher_emit_def split: if_splits)
next
  case Worker_step
  with assms show ?thesis
    by (auto simp: worker_def logStreams_write_def split: worker_pc.splits list.splits if_splits)
next
  case (Coordinator_writes n)
  with assms show ?thesis
    by (auto simp: coordinator_writes_def Let_def split: if_splits)
next
  case Coordinator_send
  with assms show ?thesis
    by (auto simp: coordinator_send_def split: option.splits if_splits)
next
  case (Coordinator_errors n r)
  with assms show ?thesis
    by (cases r)
      (auto simp: coordinator_errors_def handle_def wg_Done_def logStreams_new_None
        logStreams_new_Some Let_def nth_append split: if_splits sum.splits)
next
  case (Writer_step j resp)
  with assms(2) have "j \<noteq> k" by blast
  with assms Writer_step show ?thesis
    by (auto simp: writer_def wg_Done_def Let_def
        split: if_splits option.splits sum.splits prod.splits)
qed

lemma run_keeps_other_streams:
  "run evs lg = Next lg' \<Longrightarrow> \<forall>e \<in> set evs. \<forall>resp. e \<noteq> Writer_step k resp \<Longrightarrow>
     k < length (ls_streams lg) \<Longrightarrow>
     k < length (ls_streams lg') \<and> ls_streams lg' ! k = ls_streams lg ! k"
proof (induction evs arbitrary: lg)
  case Nil
  then show ?case by simp
next
  case (Cons e evs)
  from Cons.prems(1) obtain lg1 where s: "step e lg = Next lg1" and r: "run evs lg1 = Next lg'"
    by (auto split: outcome.splits)
  from Cons.prems(2) have e: "\<forall>resp. e \<noteq> Writer_step k resp"
    and es: "\<forall>e \<in> set evs. \<forall>resp. e \<noteq> Writer_step k resp" by simp_all
  from step_keeps_other_streams [OF s e Cons.prems(3)] Cons.IH [OF r es] show ?case by simp
qed

lemma writer_calls:
  assumes "writer k resp lg = Next lg'"
  shows "calls lg' = calls lg @
    [PutLogEvents (write_input (lg_name lg) (ls_streams lg ! k) (the (ls_writers lg ! k)))]"
  using assms
  by (auto simp: writer_def wg_Done_def Let_def
      split: if_splits option.splits sum.splits prod.splits)

lemma writer_stream:
  assumes "writer k resp lg = Next lg'"
  shows "k < length (ls_streams lg') \<and> name (ls_streams lg' ! k) = name (ls_streams lg ! k)"
proof (cases resp)
  case (Inl err)
  with assms have w: "writer k (Inl err) lg = Next lg'" by simp
  from writer_Inl [OF w] obtain stream where
    "logStream_write (Inl err) (ls_streams lg ! k) = Inr (stream, Some err)"
    and "ls_streams lg' = (ls_streams lg)[k := stream]" and "k < length (ls_streams lg)"
    by blast
  with logStream_write_name [OF this(1)] show ?thesis by simp
next
  case (Inr out)
  with assms have w: "writer k (Inr out) lg = Next lg'" by simp
  from writer_Inr [OF w] show ?thesis by simp
qed

text \<open>
  C5. After \<open>logStream.write\<close>: when the service accepts the batch the stream's token
  is the \<open>NextSequenceToken\<close> of the response and the call returns nil; when the
  service fails with an invalid-sequence-token error that carries an expected token
  \<open>T\<close>, the stream's token is \<open>T\<close>, the error is returned, and the request the
  stream builds for its next \<open>PutLogEvents\<close> call, for any batch, presents \<open>T\<close>.
  In the pool, after a turn of the writer of the stream of index \<open>k\<close>, the stream the
  pool holds at \<open>k\<close> is the old one with its token replaced: by the
  \<open>NextSequenceToken\<close> of the response on success, by \<open>T\<close> on an
  invalid-sequence-token error that carries \<open>T\<close>. And whatever the other goroutines
  and the caller do after that turn, the next turn of that stream's writer calls
  \<open>PutLogEvents\<close> for that stream, in the log group of that moment, with the token
  the stream held at the end of the earlier turn.
\<close>

theorem C5_sequence_token:
  "logStream_write (Inr out) ls = Inr (ls\<lparr>sequenceToken := NextSequenceToken out\<rparr>, None)
   \<and> (as_InvalidSequenceTokenException err = Some (Some T) \<longrightarrow>
        logStream_write (Inl err) ls = Inr (ls\<lparr>sequenceToken := Some T\<rparr>, Some err)
        \<and> SequenceToken (write_input grp (ls\<lparr>sequenceToken := Some T\<rparr>) b) = Some T)
   \<and> (\<forall>k (lg :: 'h Logger) lg'. writer k (Inr out) lg = Next lg' \<longrightarrow>
        k < length (ls_streams lg')
        \<and> ls_streams lg' ! k = (ls_streams lg ! k)\<lparr>sequenceToken := NextSequenceToken out\<rparr>)
   \<and> (\<forall>k (lg :: 'h Logger) lg'.
        writer k (Inl err) lg = Next lg' \<and> as_InvalidSequenceTokenException err = Some (Some T)
        \<longrightarrow> k < length (ls_streams lg')
            \<and> ls_streams lg' ! k = (ls_streams lg ! k)\<lparr>sequenceToken := Some T\<rparr>)
   \<and> (\<forall>k resp0 (lg :: 'h Logger) lgA evs lg1 resp lg2.
        writer k resp0 lg = Next lgA \<and> run evs lgA = Next lg1
        \<and> (\<forall>e \<in> set evs. \<forall>resp'. e \<noteq> Writer_step k resp')
        \<and> writer k resp lg1 = Next lg2 \<longrightarrow>
        calls lg2 = calls lg1 @
          [PutLogEvents \<lparr>LogGroupName = lg_name lg1, LogStreamName = name (ls_streams lg ! k),
                          LogEvents = the (ls_writers lg1 ! k),
                          SequenceToken = sequenceToken (ls_streams lgA ! k)\<rparr>])"
proof -
  have a: "logStream_write (Inr out) ls = Inr (ls\<lparr>sequenceToken := NextSequenceToken out\<rparr>, None)"
    by (simp add: logStream_write_def)
  have b: "as_InvalidSequenceTokenException err = Some (Some T) \<longrightarrow>
        logStream_write (Inl err) ls = Inr (ls\<lparr>sequenceToken := Some T\<rparr>, Some err)
        \<and> SequenceToken (write_input grp (ls\<lparr>sequenceToken := Some T\<rparr>) b) = Some T"
    by (simp add: logStream_write_def write_input_def)
  have c: "\<forall>k (lg :: 'h Logger) lg'. writer k (Inr out) lg = Next lg' \<longrightarrow>
        k < length (ls_streams lg')
        \<and> ls_streams lg' ! k = (ls_streams lg ! k)\<lparr>sequenceToken := NextSequenceToken out\<rparr>"
  proof (intro allI impI)
    fix k and lg lg' :: "'h Logger"
    assume "writer k (Inr out) lg = Next lg'"
    from writer_Inr [OF this]
    show "k < length (ls_streams lg')
        \<and> ls_streams lg' ! k = (ls_streams lg ! k)\<lparr>sequenceToken := NextSequenceToken out\<rparr>"
      by simp
  qed
  have d: "\<forall>k (lg :: 'h Logger) lg'.
        writer k (Inl err) lg = Next lg' \<and> as_InvalidSequenceTokenException err = Some (Some T)
        \<longrightarrow> k < length (ls_streams lg')
            \<and> ls_streams lg' ! k = (ls_streams lg ! k)\<lparr>sequenceToken := Some T\<rparr>"
  proof (intro allI impI, elim conjE)
    fix k and lg lg' :: "'h Logger"
    assume w: "writer k (Inl err) lg = Next lg'"
      and t: "as_InvalidSequenceTokenException err = Some (Some T)"
    from writer_Inl [OF w] obtain stream where
      s: "logStream_write (Inl err) (ls_streams lg ! k) = Inr (stream, Some err)"
      and u: "ls_streams lg' = (ls_streams lg)[k := stream]" and k: "k < length (ls_streams lg)"
      by blast
    from t have "as_InvalidSequenceTokenException err = Some (Some T)
       \<or> as_InvalidSequenceTokenException err = None
          \<and> as_DataAlreadyAcceptedException err = Some (Some T)" by simp
    from logStream_write_adopts [OF this, of "ls_streams lg ! k"] s
    have "stream = (ls_streams lg ! k)\<lparr>sequenceToken := Some T\<rparr>" by simp
    with u k show "k < length (ls_streams lg')
            \<and> ls_streams lg' ! k = (ls_streams lg ! k)\<lparr>sequenceToken := Some T\<rparr>"
      by simp
  qed
  have e: "\<forall>k resp0 (lg :: 'h Logger) lgA evs lg1 resp lg2.
        writer k resp0 lg = Next lgA \<and> run evs lgA = Next lg1
        \<and> (\<forall>e \<in> set evs. \<forall>resp'. e \<noteq> Writer_step k resp')
        \<and> writer k resp lg1 = Next lg2 \<longrightarrow>
        calls lg2 = calls lg1 @
          [PutLogEvents \<lparr>LogGroupName = lg_name lg1, LogStreamName = name (ls_streams lg ! k),
                          LogEvents = the (ls_writers lg1 ! k),
                          SequenceToken = sequenceToken (ls_streams lgA ! k)\<rparr>]"
  proof (intro allI impI, elim conjE)
    fix k resp0 and lg lgA :: "'h Logger" and evs and lg1 :: "'h Logger" and resp
      and lg2 :: "'h Logger"
    assume w0: "writer k resp0 lg = Next lgA" and r: "run evs lgA = Next lg1"
      and n: "\<forall>e \<in> set evs. \<forall>resp'. e \<noteq> Writer_step k resp'"
      and w: "writer k resp lg1 = Next lg2"
    from writer_stream [OF w0] have kA: "k < length (ls_streams lgA)"
      and nm: "name (ls_streams lgA ! k) = name (ls_streams lg ! k)" by simp_all
    from run_keeps_other_streams [OF r n kA]
    have "ls_streams lg1 ! k = ls_streams lgA ! k" by simp
    with writer_calls [OF w] nm
    show "calls lg2 = calls lg1 @
          [PutLogEvents \<lparr>LogGroupName = lg_name lg1, LogStreamName = name (ls_streams lg ! k),
                          LogEvents = the (ls_writers lg1 ! k),
                          SequenceToken = sequenceToken (ls_streams lgA ! k)\<rparr>]"
      by (simp add: write_input_def)
  qed
  from a b c d e show ?thesis by (intro conjI)
qed

theorem C5_sequence_token_example:
  "logStream_write (Inl (InvalidSequenceTokenException (Some ''T'')))
        \<lparr>name = ''p.0'', sequenceToken = Some ''old''\<rparr>
     = Inr (\<lparr>name = ''p.0'', sequenceToken = Some ''T''\<rparr>,
            Some (InvalidSequenceTokenException (Some ''T'')))
   \<and> sequenceToken (ls_streams (the_Next (run (take 11 example_run) example_Logger)) ! 0) = None
   \<and> sequenceToken (ls_streams (the_Next (run (take 12 example_run) example_Logger)) ! 0)
       = Some ''T''
   \<and> calls (the_Next (run (take 16 example_run) example_Logger)) =
       calls (the_Next (run (take 15 example_run) example_Logger)) @
         [PutLogEvents
            \<lparr>LogGroupName = ''app'',
             LogStreamName = ''0000000000000000000000000000000000000000000000000000000000000000.0'',
             LogEvents = [\<lparr>Message = ''started'', Timestamp = 1\<rparr>,
                          \<lparr>Message = ''ready'', Timestamp = 2\<rparr>],
             SequenceToken = Some ''T''\<rparr>]
   \<and> sequenceToken (ls_streams (the_Next (run (take 16 example_run) example_Logger)) ! 0)
       = Some ''n1''"
proof -
  let ?e = "InvalidSequenceTokenException (Some ''T'')"
  let ?out = "\<lparr>NextSequenceToken = Some ''n1''\<rparr>"
  let ?A = "the_Next (run (take 11 example_run) example_Logger)"
  let ?B = "the_Next (run (take 12 example_run) example_Logger)"
  let ?evs = "[Coordinator_errors 0 None, Coordinator_writes 0, Coordinator_send]"
  let ?E = "the_Next (run (take 15 example_run) example_Logger)"
  let ?F = "the_Next (run (take 16 example_run) example_Logger)"
  note t = C5_sequence_token [of ?out "\<lparr>name = ''p.0'', sequenceToken = Some ''old''\<rparr>" ?e "''T''"
      "''app''" example_batch, where 'h = "error list"]
  from t have c1: "logStream_write (Inl ?e) \<lparr>name = ''p.0'', sequenceToken = Some ''old''\<rparr>
     = Inr (\<lparr>name = ''p.0'', sequenceToken = Some ''T''\<rparr>, Some ?e)"
    by simp
  have rA: "run (take 11 example_run) example_Logger = Next ?A"
    by (rule is_Next_collapse) code_simp
  have rB0: "run (take 12 example_run) example_Logger = Next ?B"
    by (rule is_Next_collapse) code_simp
  have rE: "run (take 15 example_run) example_Logger = Next ?E"
    by (rule is_Next_collapse) code_simp
  have rF: "run (take 16 example_run) example_Logger = Next ?F"
    by (rule is_Next_collapse) code_simp
  have "take 12 example_run = take 11 example_run @ [Writer_step 0 (Inl ?e)]"
    by (simp add: example_run_def)
  with rB0 have "run (take 11 example_run @ [Writer_step 0 (Inl ?e)]) example_Logger = Next ?B"
    by simp
  from run_snoc_Next [OF rA this] have wA: "writer 0 (Inl ?e) ?A = Next ?B" by simp
  have "take 15 example_run = take 12 example_run @ ?evs"
    by (simp add: example_run_def)
  with rE have "run (take 12 example_run @ ?evs) example_Logger = Next ?E" by simp
  from run_append_Next [OF rB0 this] have rB: "run ?evs ?B = Next ?E" .
  have "take 16 example_run = take 15 example_run @ [Writer_step 0 (Inr ?out)]"
    by (simp add: example_run_def)
  with rF have "run (take 15 example_run @ [Writer_step 0 (Inr ?out)]) example_Logger = Next ?F"
    by simp
  from run_snoc_Next [OF rE this] have wE: "writer 0 (Inr ?out) ?E = Next ?F" by simp
  have n: "\<forall>e \<in> set ?evs. \<forall>resp'. e \<noteq> Writer_step 0 resp'" by simp
  have v: "sequenceToken (ls_streams ?A ! 0) = None" "lg_name ?E = ''app''"
    "name (ls_streams ?A ! 0) =
       ''0000000000000000000000000000000000000000000000000000000000000000.0''"
    "the (ls_writers ?E ! 0) = [\<lparr>Message = ''started'', Timestamp = 1\<rparr>,
                          \<lparr>Message = ''ready'', Timestamp = 2\<rparr>]"
    by code_simp+
  from t wA have sB: "ls_streams ?B ! 0 = (ls_streams ?A ! 0)\<lparr>sequenceToken := Some ''T''\<rparr>"
    by simp
  then have c3: "sequenceToken (ls_streams ?B ! 0) = Some ''T''" by simp
  from t wA rB n wE have "calls ?F = calls ?E @
          [PutLogEvents \<lparr>LogGroupName = lg_name ?E, LogStreamName = name (ls_streams ?A ! 0),
                          LogEvents = the (ls_writers ?E ! 0),
                          SequenceToken = sequenceToken (ls_streams ?B ! 0)\<rparr>]"
    by blast
  with v c3 have c4: "calls ?F = calls ?E @
         [PutLogEvents
            \<lparr>LogGroupName = ''app'',
             LogStreamName = ''0000000000000000000000000000000000000000000000000000000000000000.0'',
             LogEvents = [\<lparr>Message = ''started'', Timestamp = 1\<rparr>,
                          \<lparr>Message = ''ready'', Timestamp = 2\<rparr>],
             SequenceToken = Some ''T''\<rparr>]"
    by simp
  from t wE have "ls_streams ?F ! 0 = (ls_streams ?E ! 0)\<lparr>sequenceToken := NextSequenceToken ?out\<rparr>"
    by blast
  then have c5: "sequenceToken (ls_streams ?F ! 0) = Some ''n1''" by simp
  from c1 v(1) c3 c4 c5 show ?thesis by (intro conjI)
qed

end
